theory Spec2Isabelle
  imports Main "HOL-Library.AList"
begin

section \<open>Image size attributes (image upload utilities)\<close>

text \<open>
  \<^verbatim>\<open>String(n)\<close> of a non-negative integer below \<open>10^21\<close> is its decimal
  numeral without sign or leading zeros.
\<close>

definition digit_char :: "nat \<Rightarrow> char" where
  "digit_char d = char_of (48 + d)"

fun String_nat :: "nat \<Rightarrow> string" where
  "String_nat n = (if n < 10 then [digit_char n] else String_nat (n div 10) @ [digit_char (n mod 10)])"

declare String_nat.simps [simp del]

text \<open>Reading a decimal numeral back, digit by digit from the left.\<close>

definition digit_val :: "char \<Rightarrow> nat" where
  "digit_val c = of_char c - 48"

definition decimal_value :: "string \<Rightarrow> nat" where
  "decimal_value s = foldl (\<lambda>acc c. 10 * acc + digit_val c) 0 s"

text \<open>
  The fields of \<^verbatim>\<open>HTMLImageElement\<close> that the size functions read; both are
  \<^verbatim>\<open>unsigned long\<close> in the DOM.
\<close>

record HTMLImageElement =
  img_width :: nat
  img_height :: nat

text \<open>
  \<^verbatim>\<open>getImageSize(img) = {height: String(Math.min(IMG_MAX_HEIGHT, img.height))}\<close>.
  The constant \<^verbatim>\<open>IMG_MAX_HEIGHT\<close> is imported from \<^verbatim>\<open>./const\<close>, whose text is
  not part of the sources at hand, so it is a parameter here.
\<close>

record ImgSizeAttrs =
  attr_width :: "string option"
  attr_height :: "string option"

definition getImageSize :: "nat \<Rightarrow> HTMLImageElement \<Rightarrow> ImgSizeAttrs" where
  "getImageSize IMG_MAX_HEIGHT img =
     \<lparr>attr_width = None, attr_height = Some (String_nat (min IMG_MAX_HEIGHT (img_height img)))\<rparr>"

section \<open>Document nodes\<close>

text \<open>
  The part of a ProseMirror node that the editor and the placeholder plugin read: the
  node type (its name, whether it is the text type or a leaf type, and the
  \<^verbatim>\<open>placeholder\<close> entry of its spec), the child nodes and, for a text node,
  the text. The \<^verbatim>\<open>content\<close> field of a placeholder spec is read only by
  \<^verbatim>\<open>getPlaceholderContent\<close>, which is a parameter below, so it is not a field.
\<close>

type_synonym PluginKey = string

record PlaceholderSpec =
  customPlugin :: "PluginKey option"
  alwaysVisible :: bool

record NodeType =
  type_name :: string
  isText :: bool
  isLeaf :: bool
  placeholder :: "PlaceholderSpec option"

datatype Node = Node (ntype: NodeType) (children: "Node list") (ntext: string)

definition childCount :: "Node \<Rightarrow> nat" where
  "childCount n = length (children n)"

definition firstChild :: "Node \<Rightarrow> Node option" where
  "firstChild n = (case children n of [] \<Rightarrow> None | c # _ \<Rightarrow> Some c)"

section \<open>The editor: emptiness test\<close>

text \<open>
  \<^verbatim>\<open>isEmpty()\<close> reads the document of the current view state:
  \<^verbatim>\<open>doc.childCount === 1 && doc.firstChild?.type.name === 'paragraph' &&
  doc.firstChild.childCount === 0\<close>. The optional chaining gives \<^verbatim>\<open>undefined\<close>,
  which is not \<^verbatim>\<open>'paragraph'\<close>, when there is no first child.
\<close>

definition isEmpty :: "Node \<Rightarrow> bool" where
  "isEmpty doc \<longleftrightarrow>
     childCount doc = 1
     \<and> map_option (type_name \<circ> ntype) (firstChild doc) = Some ''paragraph''
     \<and> (case firstChild doc of None \<Rightarrow> False | Some c \<Rightarrow> childCount c = 0)"

text \<open>
  The specification's wording of the same test: the tree is exactly one childless default
  block node. The default block type of the editor is \<^verbatim>\<open>paragraph\<close>.
\<close>

definition one_childless_default_block :: "Node \<Rightarrow> bool" where
  "one_childless_default_block doc \<longleftrightarrow>
     (\<exists>p. children doc = [p] \<and> type_name (ntype p) = ''paragraph'' \<and> children p = [])"

text \<open>The trees of the empty-document scenario.\<close>

definition paragraph_type :: NodeType where
  "paragraph_type = \<lparr>type_name = ''paragraph'', isText = False, isLeaf = False, placeholder = None\<rparr>"

definition text_type :: NodeType where
  "text_type = \<lparr>type_name = ''text'', isText = True, isLeaf = True, placeholder = None\<rparr>"

definition doc_type :: NodeType where
  "doc_type = \<lparr>type_name = ''doc'', isText = False, isLeaf = False, placeholder = None\<rparr>"

definition empty_doc :: Node where
  "empty_doc = Node doc_type [Node paragraph_type [] []] []"

definition doc_x :: Node where
  "doc_x = Node doc_type [Node paragraph_type [Node text_type [] ''x''] []] []"

section \<open>The editor: dispatching a transaction\<close>

text \<open>
  A thrown value is \<open>Inl\<close>, a normal return \<open>Inr\<close>. A caller's callback receives the
  editor, whose view state it reads, and acts on the caller's own state, which it may
  change; it returns normally or throws, and what it changed before throwing stays changed.
\<close>

type_synonym exn = string

type_synonym ('s, 'u) OnChange = "'s \<Rightarrow> 'u \<Rightarrow> (exn + unit) \<times> 'u"

datatype callback_option = OnChangeOption | OnDocChangeOption

text \<open>
  What happened, in order: the view took a new state (\<^verbatim>\<open>updateState\<close>), a callback of
  the options was called on an editor in some state, the transaction's metrics were logged.
\<close>

datatype 's event = UpdateState 's | CallbackCalled callback_option 's | MetricsLogged

record ('s, 'l, 'u) WysiwygEditor =
  view_state :: 's
  console_error :: "exn list"
  logger :: 'l
  events :: "'s event list"
  caller :: 'u

record ('s, 'u) Callbacks =
  onChange :: "('s, 'u) OnChange option"
  onDocChange :: "('s, 'u) OnChange option"

text \<open>
  Of a transaction the editor reads the flag \<^verbatim>\<open>docChanged\<close>, and the placeholder
  plugin reads the position mapping: where a position of the old document lies in the new
  one, or that the content at its side was deleted (\<open>None\<close>).
\<close>

record Transaction =
  docChanged :: bool
  mapping :: "nat \<Rightarrow> nat option"

text \<open>
  \<^verbatim>\<open>tryOnChange(cb)\<close>: nothing when the callback is undefined; otherwise the callback
  is called inside \<^verbatim>\<open>try\<close>, and what it throws goes to \<^verbatim>\<open>console.error\<close>. The
  first argument records which option the closure was made from
  (\<^verbatim>\<open>thisOnChange\<close> or \<^verbatim>\<open>thisOnDocChange\<close>).
\<close>

definition tryOnChange ::
  "callback_option \<Rightarrow> ('s, 'u) OnChange option \<Rightarrow> ('s, 'l, 'u) WysiwygEditor
     \<Rightarrow> exn + ('s, 'l, 'u) WysiwygEditor" where
  "tryOnChange which cb editor =
     (case cb of
        None \<Rightarrow> Inr editor
      | Some f \<Rightarrow>
          (let called = editor\<lparr>events := events editor @ [CallbackCalled which (view_state editor)]\<rparr>
           in case f (view_state editor) (caller editor) of
                (Inr _, u) \<Rightarrow> Inr (called\<lparr>caller := u\<rparr>)
              | (Inl err, u) \<Rightarrow>
                  Inr (called\<lparr>caller := u, console_error := console_error called @ [err]\<rparr>)))"

definition then_do :: "exn + 'a \<Rightarrow> ('a \<Rightarrow> exn + 'b) \<Rightarrow> exn + 'b" where
  "then_do r k = (case r of Inl err \<Rightarrow> Inl err | Inr x \<Rightarrow> k x)"

text \<open>
  \<^verbatim>\<open>dispatchTransaction(tr)\<close>. The state's \<^verbatim>\<open>apply\<close> belongs to ProseMirror and
  \<^verbatim>\<open>logTransactionMetrics\<close> to a module that is not among the sources; both are
  parameters.
\<close>

definition dispatchTransaction ::
  "(Transaction \<Rightarrow> 's \<Rightarrow> 's) \<Rightarrow> (Transaction \<Rightarrow> 'l \<Rightarrow> 'l) \<Rightarrow> ('s, 'u) Callbacks
     \<Rightarrow> Transaction \<Rightarrow> ('s, 'l, 'u) WysiwygEditor \<Rightarrow> exn + ('s, 'l, 'u) WysiwygEditor" where
  "dispatchTransaction apply logTransactionMetrics opts tr editor =
     (let newState = apply tr (view_state editor);
          updated = editor\<lparr>view_state := newState, events := events editor @ [UpdateState newState]\<rparr>
      in then_do (tryOnChange OnChangeOption (onChange opts) updated) (\<lambda>e1.
         then_do (if docChanged tr then tryOnChange OnDocChangeOption (onDocChange opts) e1 else Inr e1) (\<lambda>e2.
         Inr (e2\<lparr>logger := logTransactionMetrics tr (logger e2),
                 events := events e2 @ [MetricsLogged]\<rparr>))))"

text \<open>The events that a dispatch adds to those already recorded.\<close>

definition new_events :: "('s, 'l, 'u) WysiwygEditor \<Rightarrow> ('s, 'l, 'u) WysiwygEditor \<Rightarrow> 's event list" where
  "new_events before after = drop (length (events before)) (events after)"

text \<open>
  What it is to invoke the callback of an option on an editor in state \<open>s\<close> when the
  caller's state is \<open>u\<close>: the caller's state afterwards (unchanged when the option gives
  no callback), and what the callback throws, as a list of at most one value.
\<close>

definition after_callback :: "('s, 'u) OnChange option \<Rightarrow> 's \<Rightarrow> 'u \<Rightarrow> 'u" where
  "after_callback cb s u = (case cb of None \<Rightarrow> u | Some f \<Rightarrow> snd (f s u))"

definition thrown :: "('s, 'u) OnChange option \<Rightarrow> 's \<Rightarrow> 'u \<Rightarrow> exn list" where
  "thrown cb s u =
     (case cb of None \<Rightarrow> [] | Some f \<Rightarrow> (case fst (f s u) of Inl err \<Rightarrow> [err] | Inr _ \<Rightarrow> []))"

text \<open>The call of a callback on an editor in a given state, when the option gives one.\<close>

definition calls_of :: "callback_option \<Rightarrow> ('s, 'u) OnChange option \<Rightarrow> 's \<Rightarrow> 's event list" where
  "calls_of which cb s = (case cb of None \<Rightarrow> [] | Some f \<Rightarrow> [CallbackCalled which s])"

text \<open>How often a dispatch called the callback of one option.\<close>

fun is_call_of :: "callback_option \<Rightarrow> 's event \<Rightarrow> bool" where
  "is_call_of which (CallbackCalled w _) = (w = which)"
| "is_call_of which (UpdateState _) = False"
| "is_call_of which MetricsLogged = False"

definition times_called :: "callback_option \<Rightarrow> 's event list \<Rightarrow> nat" where
  "times_called which evs = length (filter (is_call_of which) evs)"

text \<open>
  No call of the document-change callback without a call of the change callback before
  it: the first callback call among the events, if there is one, is of the change callback.
\<close>

fun change_before_docChange :: "'s event list \<Rightarrow> bool" where
  "change_before_docChange [] = True"
| "change_before_docChange (CallbackCalled OnChangeOption _ # es) = True"
| "change_before_docChange (CallbackCalled OnDocChangeOption _ # es) = False"
| "change_before_docChange (UpdateState _ # es) = change_before_docChange es"
| "change_before_docChange (MetricsLogged # es) = change_before_docChange es"

text \<open>
  An instance to run: a state is the number of transactions applied, and the caller keeps a
  list to which each of its callbacks adds its name when it is called, before it returns
  or throws.
\<close>

definition count_applied :: "Transaction \<Rightarrow> nat \<Rightarrow> nat" where
  "count_applied tr s = Suc s"

definition count_metrics :: "Transaction \<Rightarrow> nat \<Rightarrow> nat" where
  "count_metrics tr l = Suc l"

definition tr_selection :: Transaction where
  "tr_selection = \<lparr>docChanged = False, mapping = Some\<rparr>"

definition tr_typing :: Transaction where
  "tr_typing = \<lparr>docChanged = True, mapping = (\<lambda>p. Some (Suc p))\<rparr>"

definition throwing :: "string \<Rightarrow> (nat, string list) OnChange" where
  "throwing name s u = (Inl ''callback failed'', u @ [name])"

definition returning :: "string \<Rightarrow> (nat, string list) OnChange" where
  "returning name s u = (Inr (), u @ [name])"

definition editor0 :: "(nat, nat, string list) WysiwygEditor" where
  "editor0 = \<lparr>view_state = 0, console_error = [], logger = 0, events = [], caller = []\<rparr>"

text \<open>
  The editor after a transaction that changed the document, when the options give a
  document-change callback and no change callback.
\<close>

definition editor_docChange_only :: "(nat, nat, string list) WysiwygEditor" where
  "editor_docChange_only =
     \<lparr>view_state = 1, console_error = [], logger = 1,
      events = [UpdateState 1, CallbackCalled OnDocChangeOption 1, MetricsLogged],
      caller = [''onDocChange'']\<rparr>"

section \<open>The editor: composition of extensions\<close>

text \<open>
  The constructor hands the extensions and the dynamic modifiers to
  \<^verbatim>\<open>ExtensionsManager.process\<close>. That class, the extension builder, the three
  dynamic-modifier classes and \<^verbatim>\<open>convertDynamicModifiersConfigs\<close> are modules of the
  repository whose text is not among the sources at hand; the definitions of this section
  that stand for them follow the specification, and each says so.
\<close>

text \<open>
  Modelled from the spec: the families of keyed contributions of an extension
  (node type, mark type, parser rule for a token, serializer rule for a node or mark
  type, action), which the missing extension builder collects.
\<close>

datatype family = NodeTypeName | MarkTypeName | ParserRuleKey | SerializerRuleKey | ActionName

text \<open>
  Modelled from the spec: one call of the missing builder by an extension: the family,
  the key, whether the contribution is explicitly marked as an override, and the
  contributed handler (a node or mark spec, a parser or serializer rule, an action).
\<close>

type_synonym 'h contribution = "family \<times> string \<times> bool \<times> 'h"

text \<open>
  Modelled from the spec: an extension contribution, which the missing module
  \<^verbatim>\<open>types/extension\<close> declares: a named unit and its builder calls in order.
\<close>

record 'h Extension =
  ext_name :: string
  contributions :: "'h contribution list"

text \<open>
  Modelled from the spec: the construction error of a name collision, naming the family
  and key, the extension that holds the key and the later extension that contributes it
  again.
\<close>

datatype CompositionError = NameCollision family string string string

text \<open>
  Modelled from the spec: the registry of the missing \<^verbatim>\<open>ExtensionsManager\<close>, an
  ordered mapping from family and key to the contributing extension and its handler.
\<close>

type_synonym 'h registry = "((family \<times> string) \<times> (string \<times> 'h)) list"

text \<open>
  Modelled from the spec: the name-collision policy of the missing builder. A key not yet
  held is appended; a later contribution marked as an override replaces the earlier one
  in its place; any other duplicate is a composition-time error.
\<close>

fun register :: "string \<times> 'h contribution \<Rightarrow> 'h registry \<Rightarrow> CompositionError + 'h registry" where
  "register (ext, fam, key, override, h) reg =
     (case map_of reg (fam, key) of
        None \<Rightarrow> Inr (reg @ [((fam, key), (ext, h))])
      | Some (owner, _) \<Rightarrow>
          if override then Inr (map (\<lambda>(k, v). if k = (fam, key) then (k, (ext, h)) else (k, v)) reg)
          else Inl (NameCollision fam key owner ext))"

text \<open>
  Modelled from the spec: the builder calls of an ordered extension list, extensions in
  the order given and each extension's calls in its own order (the missing
  \<^verbatim>\<open>ExtensionsManager\<close> runs the extensions on one shared builder).
\<close>

definition builder_calls :: "'h Extension list \<Rightarrow> (string \<times> 'h contribution) list" where
  "builder_calls exts = concat (map (\<lambda>e. map (\<lambda>c. (ext_name e, c)) (contributions e)) exts)"

text \<open>
  Modelled from the spec: the composition pass of the missing \<^verbatim>\<open>ExtensionsManager\<close>;
  the first collision ends it with the error.
\<close>

fun compose :: "(string \<times> 'h contribution) list \<Rightarrow> 'h registry \<Rightarrow> CompositionError + 'h registry" where
  "compose [] reg = Inr reg"
| "compose (c # cs) reg = (case register c reg of Inl err \<Rightarrow> Inl err | Inr reg' \<Rightarrow> compose cs reg')"

text \<open>
  Modelled from the spec: a dynamic modifier config, which the missing module
  \<^verbatim>\<open>types/dynamicModifiers\<close> declares: for each of the three patch surfaces a mapping
  from a handler key to a patch function, which receives the base handler.
\<close>

record 'h DynamicModifiers =
  schema_patches :: "(string \<times> ('h \<Rightarrow> 'h)) list"
  parser_patches :: "(string \<times> ('h \<Rightarrow> 'h)) list"
  serializer_patches :: "(string \<times> ('h \<Rightarrow> 'h)) list"

text \<open>
  Modelled from the spec: the missing \<^verbatim>\<open>convertDynamicModifiersConfigs\<close>, which makes
  one config of the caller's list of configs, surface by surface.
\<close>

definition convertDynamicModifiersConfigs :: "'h DynamicModifiers list \<Rightarrow> 'h DynamicModifiers" where
  "convertDynamicModifiersConfigs ms =
     \<lparr>schema_patches = concat (map schema_patches ms),
      parser_patches = concat (map parser_patches ms),
      serializer_patches = concat (map serializer_patches ms)\<rparr>"

text \<open>
  Modelled from the spec: the missing classes \<^verbatim>\<open>SchemaDynamicModifier\<close>,
  \<^verbatim>\<open>MarkdownParserDynamicModifier\<close> and \<^verbatim>\<open>MarkdownSerializerDynamicModifier\<close>. Each
  holds the patches of its surface and resolves a handler: the patch under the key applied
  to the base handler, the base handler itself when the key has no patch.
\<close>

definition resolve_handler :: "(string \<times> ('h \<Rightarrow> 'h)) list \<Rightarrow> string \<Rightarrow> 'h \<Rightarrow> 'h" where
  "resolve_handler patches key base = (case map_of patches key of None \<Rightarrow> base | Some patch \<Rightarrow> patch base)"

text \<open>
  Modelled from the spec: the patch surface of each family in the missing
  \<^verbatim>\<open>ExtensionsManager\<close>: node and mark types are patched by the schema surface, parser
  and serializer rules by theirs; actions have no patch surface.
\<close>

fun patches_of :: "'h DynamicModifiers \<Rightarrow> family \<Rightarrow> (string \<times> ('h \<Rightarrow> 'h)) list" where
  "patches_of dm NodeTypeName = schema_patches dm"
| "patches_of dm MarkTypeName = schema_patches dm"
| "patches_of dm ParserRuleKey = parser_patches dm"
| "patches_of dm SerializerRuleKey = serializer_patches dm"
| "patches_of dm ActionName = []"

text \<open>
  Modelled from the spec: the patching of the registry by the missing
  \<^verbatim>\<open>ExtensionsManager\<close>: every entry keeps its place, key and extension, and its
  handler is resolved through the patches of its family's surface.
\<close>

definition apply_modifiers :: "'h DynamicModifiers \<Rightarrow> 'h registry \<Rightarrow> 'h registry" where
  "apply_modifiers dm reg =
     map (\<lambda>((fam, key), (ext, h)). ((fam, key), (ext, resolve_handler (patches_of dm fam) key h))) reg"

text \<open>
  Modelled from the spec: what the missing \<^verbatim>\<open>ExtensionsManager.process\<close> returns, as
  far as the claims go: the schema (node and mark types), the rules of the markup parser
  and of the serializer, each an ordered table from key to resolved handler.
\<close>

record 'h Composed =
  schema :: "((family \<times> string) \<times> 'h) list"
  markupParser :: "(string \<times> 'h) list"
  serializer :: "(string \<times> 'h) list"

text \<open>
  Modelled from the spec: the table that the missing \<^verbatim>\<open>ExtensionsManager\<close> hands out
  for some families: their entries of the registry in order, without the extension names.
\<close>

definition table_of :: "family list \<Rightarrow> 'h registry \<Rightarrow> ((family \<times> string) \<times> 'h) list" where
  "table_of fams reg = map (\<lambda>(k, (ext, h)). (k, h)) (filter (\<lambda>(k, v). fst k \<in> set fams) reg)"

text \<open>
  Modelled from the spec: the missing \<^verbatim>\<open>ExtensionsManager.process\<close>: the composition
  pass over the builder calls of the extensions, its error thrown as it is; then, when
  dynamic modifiers are given, the patching of the resolved handlers.
\<close>

definition ExtensionsManager_process ::
  "'h Extension list \<Rightarrow> 'h DynamicModifiers option \<Rightarrow> CompositionError + 'h Composed" where
  "ExtensionsManager_process extensions dynamicModifiers =
     (case compose (builder_calls extensions) [] of
        Inl err \<Rightarrow> Inl err
      | Inr reg \<Rightarrow>
          (let resolved = (case dynamicModifiers of None \<Rightarrow> reg | Some dm \<Rightarrow> apply_modifiers dm reg)
           in Inr \<lparr>schema = table_of [NodeTypeName, MarkTypeName] resolved,
                   markupParser = map (\<lambda>(k, h). (snd k, h)) (table_of [ParserRuleKey] resolved),
                   serializer = map (\<lambda>(k, h). (snd k, h)) (table_of [SerializerRuleKey] resolved)\<rparr>))"

text \<open>
  The options of the constructor that reach the composition. In the source the option
  \<^verbatim>\<open>extensions\<close> is one extension, which uses others through the builder; following the
  specification it is the ordered list of the extensions used.
\<close>

record 'h WysiwygEditorOptions =
  extensions :: "'h Extension list"
  modifiers :: "'h DynamicModifiers list option"

text \<open>
  The constructor, up to the composition:
  \<^verbatim>\<open>modifiers ? convertDynamicModifiersConfigs(modifiers) : undefined\<close>, where an array,
  the empty one included, is truthy; then the three modifier objects, made when there is a
  config; then \<^verbatim>\<open>ExtensionsManager.process\<close>, whose error is not caught.
\<close>

definition WysiwygEditor_constructor :: "'h WysiwygEditorOptions \<Rightarrow> CompositionError + 'h Composed" where
  "WysiwygEditor_constructor opts =
     (let dynamicModifiersConfig =
            (case modifiers opts of None \<Rightarrow> None | Some ms \<Rightarrow> Some (convertDynamicModifiersConfigs ms));
          dynamicModifiers =
            (case dynamicModifiersConfig of
               None \<Rightarrow> None
             | Some cfg \<Rightarrow> Some \<lparr>schema_patches = schema_patches cfg,
                                parser_patches = parser_patches cfg,
                                serializer_patches = serializer_patches cfg\<rparr>)
      in ExtensionsManager_process (extensions opts) dynamicModifiers)"

text \<open>Instances to run: handlers are strings.\<close>

definition ext_base :: "string Extension" where
  "ext_base = \<lparr>ext_name = ''Base'',
     contributions = [(NodeTypeName, ''paragraph'', False, ''p-spec''),
                      (ParserRuleKey, ''paragraph'', False, ''p-token''),
                      (SerializerRuleKey, ''paragraph'', False, ''p-md'')]\<rparr>"

definition ext_clash :: "string Extension" where
  "ext_clash = \<lparr>ext_name = ''Clash'',
     contributions = [(NodeTypeName, ''paragraph'', False, ''other-spec'')]\<rparr>"

definition ext_override :: "string Extension" where
  "ext_override = \<lparr>ext_name = ''Override'',
     contributions = [(NodeTypeName, ''paragraph'', True, ''new-spec'')]\<rparr>"

section \<open>The placeholder plugin: what it reads\<close>

text \<open>
  Positions count as in ProseMirror: a text node takes one position per character, any
  other leaf one, and any other node its content plus an opening and a closing token.
\<close>

fun nodeSize :: "Node \<Rightarrow> nat" where
  "nodeSize (Node t cs txt) =
     (if isText t then length txt else if isLeaf t then 1 else 2 + sum_list (map nodeSize cs))"

text \<open>
  \<^verbatim>\<open>node.descendants(f)\<close> calls \<open>f\<close> on every descendant in document order with the
  position before it (counted from the start of the content of the node it is called on)
  and its parent, and goes into a child unless \<open>f\<close> returns \<^verbatim>\<open>false\<close>, which the
  callbacks of the plugin never do. \<open>walk parent pos cs\<close> lists these calls for the
  children \<open>cs\<close> of \<open>parent\<close>, the first of which starts at \<open>pos\<close>.
\<close>

fun walk :: "Node \<Rightarrow> nat \<Rightarrow> Node list \<Rightarrow> (Node \<times> nat \<times> Node) list" where
  "walk parent pos [] = []"
| "walk parent pos (Node t kids txt # cs) =
     (Node t kids txt, pos, parent)
       # walk (Node t kids txt) (Suc pos) kids
       @ walk parent (pos + nodeSize (Node t kids txt)) cs"

definition descendants :: "Node \<Rightarrow> (Node \<times> nat \<times> Node) list" where
  "descendants n = walk n 0 (children n)"

text \<open>
  \<^verbatim>\<open>findChildren(node, predicate)\<close> of prosemirror-utils, with its default of
  descending: the descendants that satisfy the predicate.
\<close>

definition findChildren :: "Node \<Rightarrow> (Node \<Rightarrow> bool) \<Rightarrow> Node list" where
  "findChildren n predicate = filter predicate (map fst (descendants n))"

text \<open>
  A resolved position: for each depth from 0 (the document) to the depth of the position
  the ancestor node at that depth and the position before it.
  \<^verbatim>\<open>findParentNodeClosestToPos($pos, predicate)\<close> of prosemirror-utils tries the
  depths from the deepest down to 1 and gives the first ancestor that satisfies the
  predicate, with its position and depth.
\<close>

type_synonym ResolvedPos = "(Node \<times> nat) list"

fun closest_from :: "ResolvedPos \<Rightarrow> (Node \<Rightarrow> bool) \<Rightarrow> nat \<Rightarrow> (Node \<times> nat \<times> nat) option" where
  "closest_from rpos predicate 0 = None"
| "closest_from rpos predicate (Suc i) =
     (if predicate (fst (rpos ! Suc i)) then Some (fst (rpos ! Suc i), snd (rpos ! Suc i), Suc i)
      else closest_from rpos predicate i)"

definition findParentNodeClosestToPos ::
  "ResolvedPos \<Rightarrow> (Node \<Rightarrow> bool) \<Rightarrow> (Node \<times> nat \<times> nat) option" where
  "findParentNodeClosestToPos rpos predicate = closest_from rpos predicate (length rpos - 1)"

text \<open>
  The selection: whether it is a text selection, the position of its cursor
  (\<^verbatim>\<open>$cursor?.pos\<close>) and its resolved start \<^verbatim>\<open>$from\<close>.
\<close>

record Selection =
  isTextSelection :: bool
  cursor :: "nat option"
  sel_from :: ResolvedPos

text \<open>
  The editor state as the plugin reads it: the node types of the schema, the document,
  the selection and, for the key of a custom placeholder plugin, the values
  \<^verbatim>\<open>spec.pos\<close> of the decorations in that plugin's state (none when it has no state).
\<close>

record EditorState =
  schema_nodes :: "NodeType list"
  state_doc :: Node
  selection :: Selection
  custom_decorations :: "PluginKey \<Rightarrow> nat list"

section \<open>The placeholder plugin: widgets\<close>

text \<open>
  The element that \<^verbatim>\<open>createPlaceholder\<close> builds. \<^verbatim>\<open>document.createElement\<close> makes a
  new object at every call; \<open>dom_id\<close> is the identity of the object, taken from a counter
  of the elements made so far.
\<close>

record PlaceholderDOM =
  dom_id :: nat
  dom_focus :: bool
  dom_text :: string

record WidgetDecoSpec =
  focus :: bool

record WidgetSpec =
  widget_pos :: nat
  toDOM :: PlaceholderDOM
  widget_spec :: WidgetDecoSpec

datatype WidgetsEntry = Widget WidgetSpec | Key PluginKey

type_synonym WidgetsMap = "(nat \<times> WidgetsEntry) list"

text \<open>
  \<^verbatim>\<open>getPlaceholderPluginKeys(schema)\<close>: the custom plugin keys of the node types whose
  spec has a placeholder with one, in the order of the schema.
\<close>

definition getPlaceholderPluginKeys :: "NodeType list \<Rightarrow> PluginKey list" where
  "getPlaceholderPluginKeys nodes =
     List.map_filter (\<lambda>t. case placeholder t of None \<Rightarrow> None | Some spec \<Rightarrow> customPlugin spec) nodes"

text \<open>
  \<^verbatim>\<open>createPlaceholder(node, parent, focus)\<close>: no element when the content is null or
  empty. \<^verbatim>\<open>getPlaceholderContent\<close> is imported from a module that is not among the
  sources and is a parameter. The result comes with the counter of elements.
\<close>

definition createPlaceholder ::
  "(Node \<Rightarrow> Node option \<Rightarrow> string option) \<Rightarrow> Node \<Rightarrow> Node option \<Rightarrow> bool \<Rightarrow> nat
     \<Rightarrow> PlaceholderDOM option \<times> nat" where
  "createPlaceholder getPlaceholderContent node parent foc fresh =
     (case getPlaceholderContent node parent of
        None \<Rightarrow> (None, fresh)
      | Some content \<Rightarrow>
          if content = [] then (None, fresh)
          else (Some \<lparr>dom_id = fresh, dom_focus = foc, dom_text = content\<rparr>, Suc fresh))"

definition hasAlwaysVisible :: "Node \<Rightarrow> bool" where
  "hasAlwaysVisible n = (case placeholder (ntype n) of None \<Rightarrow> False | Some spec \<Rightarrow> alwaysVisible spec)"

text \<open>
  \<^verbatim>\<open>placeholderNeeded(node)\<close>; \<^verbatim>\<open>isNodeEmpty\<close> is imported from a module that is not
  among the sources and is a parameter.
\<close>

definition placeholderNeeded :: "(Node \<Rightarrow> bool) \<Rightarrow> Node \<Rightarrow> bool" where
  "placeholderNeeded isNodeEmpty node =
     (let childrenWithPlaceholderVisible = findChildren node hasAlwaysVisible
      in isNodeEmpty node \<and> length childrenWithPlaceholderVisible = 0)"

text \<open>
  What \<^verbatim>\<open>addDecoration\<close> writes to: the widgets map, the focus flag of the global
  state, and the counter of elements.
\<close>

record Placing =
  widgetsMap :: WidgetsMap
  gs_hasFocus :: bool
  fresh :: nat

definition addDecoration ::
  "(Node \<Rightarrow> Node option \<Rightarrow> string option) \<Rightarrow> Placing \<Rightarrow> Node \<Rightarrow> nat \<Rightarrow> Node option \<Rightarrow> nat option
     \<Rightarrow> Placing" where
  "addDecoration getPlaceholderContent st node pos parent cursorPos =
     (let placeholderSpec = placeholder (ntype node);
          decorationPosition = pos + childCount node + 1
      in case placeholderSpec of
           None \<Rightarrow> st
         | Some spec \<Rightarrow>
             if map_of (widgetsMap st) decorationPosition \<noteq> None then st
             else (case customPlugin spec of
                     Some key \<Rightarrow> st\<lparr>widgetsMap := AList.update decorationPosition (Key key) (widgetsMap st)\<rparr>
                   | None \<Rightarrow>
                       (let foc = (cursorPos = Some decorationPosition)
                        in case createPlaceholder getPlaceholderContent node parent foc (fresh st) of
                             (None, _) \<Rightarrow> st
                           | (Some placeholderDOM, fresh') \<Rightarrow>
                               st\<lparr>widgetsMap :=
                                     AList.update decorationPosition
                                       (Widget \<lparr>widget_pos = decorationPosition, toDOM = placeholderDOM,
                                                widget_spec = \<lparr>focus = foc\<rparr>\<rparr>)
                                       (widgetsMap st),
                                  gs_hasFocus := (if foc then True else gs_hasFocus st),
                                  fresh := fresh'\<rparr>)))"

text \<open>
  The first loop of \<^verbatim>\<open>getPlaceholderWidgetSpecs\<close>: every position that a custom
  placeholder plugin decorates is given to that plugin's key.
\<close>

definition mark_custom :: "EditorState \<Rightarrow> WidgetsMap \<Rightarrow> WidgetsMap" where
  "mark_custom state wm =
     fold (\<lambda>f m. fold (\<lambda>p m'. AList.update p (Key f) m') (custom_decorations state f) m)
       (getPlaceholderPluginKeys (schema_nodes state)) wm"

text \<open>The callback \<^verbatim>\<open>decorate\<close> of the walk over the document.\<close>

definition decorate ::
  "(Node \<Rightarrow> bool) \<Rightarrow> (Node \<Rightarrow> Node option \<Rightarrow> string option) \<Rightarrow> nat option
     \<Rightarrow> Node \<times> nat \<times> Node \<Rightarrow> Placing \<Rightarrow> Placing" where
  "decorate isNodeEmpty getPlaceholderContent cursorPos call st =
     (case call of (node, pos, parent) \<Rightarrow>
        if hasAlwaysVisible node \<and> placeholderNeeded isNodeEmpty node
        then addDecoration getPlaceholderContent st node pos (Some parent) cursorPos
        else st)"

text \<open>The placeholder at the place of the cursor, for the closest ancestor with a placeholder spec.\<close>

definition decorate_cursor ::
  "(Node \<Rightarrow> bool) \<Rightarrow> (Node \<Rightarrow> Node option \<Rightarrow> string option) \<Rightarrow> nat option
     \<Rightarrow> ResolvedPos \<Rightarrow> Placing \<Rightarrow> Placing" where
  "decorate_cursor isNodeEmpty getPlaceholderContent cursorPos rpos st =
     (case findParentNodeClosestToPos rpos (\<lambda>node. placeholder (ntype node) \<noteq> None) of
        None \<Rightarrow> st
      | Some (node, pos, depth) \<Rightarrow>
          if placeholderNeeded isNodeEmpty node \<and> placeholder (ntype node) \<noteq> None
             \<and> \<not> hasAlwaysVisible node
          then addDecoration getPlaceholderContent st node pos
                 (if depth > 0 then Some (fst (rpos ! (depth - 1))) else None) cursorPos
          else st)"

text \<open>
  \<^verbatim>\<open>Object.values\<close> of the widgets map lists the values by ascending position; the
  entries that are plugin keys are left out.
\<close>

fun widget_of :: "WidgetsEntry \<Rightarrow> WidgetSpec option" where
  "widget_of (Widget w) = Some w"
| "widget_of (Key k) = None"

definition widgets_of :: "WidgetsMap \<Rightarrow> WidgetSpec list" where
  "widgets_of wm = List.map_filter widget_of (map snd (sort_key fst wm))"

definition placing :: "(Node \<Rightarrow> bool) \<Rightarrow> (Node \<Rightarrow> Node option \<Rightarrow> string option) \<Rightarrow> EditorState \<Rightarrow> nat \<Rightarrow> Placing" where
  "placing isNodeEmpty getPlaceholderContent state fresh0 =
     (let cursorPos = (if isTextSelection (selection state) then cursor (selection state) else None);
          st0 = \<lparr>widgetsMap = mark_custom state [], gs_hasFocus = False, fresh = fresh0\<rparr>;
          st1 = fold (decorate isNodeEmpty getPlaceholderContent cursorPos) (descendants (state_doc state)) st0
      in decorate_cursor isNodeEmpty getPlaceholderContent cursorPos (sel_from (selection state)) st1)"

definition getPlaceholderWidgetSpecs ::
  "(Node \<Rightarrow> bool) \<Rightarrow> (Node \<Rightarrow> Node option \<Rightarrow> string option) \<Rightarrow> EditorState \<Rightarrow> nat
     \<Rightarrow> (WidgetSpec list \<times> bool) \<times> nat" where
  "getPlaceholderWidgetSpecs isNodeEmpty getPlaceholderContent state fresh0 =
     (let st = placing isNodeEmpty getPlaceholderContent state fresh0
      in ((widgets_of (widgetsMap st), gs_hasFocus st), fresh st))"

section \<open>The placeholder plugin: decoration sets and the plugin state\<close>

text \<open>
  A widget decoration of ProseMirror: its position and its widget type, which holds the
  element and the spec. A decoration set is modelled by the list of its decorations, with
  the operations that the plugin calls: \<^verbatim>\<open>map\<close> moves every decoration through the
  mapping and drops those whose place was deleted, keeping their types; \<^verbatim>\<open>find\<close> gives
  the decorations in a range; \<^verbatim>\<open>remove\<close> drops the decorations that are equal
  (same position, same element, equal spec) to one of those given; \<^verbatim>\<open>add\<close> adds
  decorations. \<^verbatim>\<open>Decoration.widget\<close> is the only one that makes a widget type.
\<close>

record Decoration =
  deco_from :: nat
  deco_toDOM :: PlaceholderDOM
  deco_spec :: WidgetDecoSpec

type_synonym DecorationSet = "Decoration list"

definition Decoration_widget :: "WidgetSpec \<Rightarrow> Decoration" where
  "Decoration_widget w = \<lparr>deco_from = widget_pos w, deco_toDOM = toDOM w, deco_spec = widget_spec w\<rparr>"

definition set_map :: "(nat \<Rightarrow> nat option) \<Rightarrow> DecorationSet \<Rightarrow> DecorationSet" where
  "set_map m ds = List.map_filter (\<lambda>d. map_option (\<lambda>p. d\<lparr>deco_from := p\<rparr>) (m (deco_from d))) ds"

definition set_find :: "DecorationSet \<Rightarrow> nat \<Rightarrow> nat \<Rightarrow> Decoration list" where
  "set_find ds start end = filter (\<lambda>d. deco_from d \<le> end \<and> start \<le> deco_from d) ds"

definition deco_eq :: "Decoration \<Rightarrow> Decoration \<Rightarrow> bool" where
  "deco_eq a b \<longleftrightarrow> deco_from a = deco_from b \<and> dom_id (deco_toDOM a) = dom_id (deco_toDOM b)
     \<and> deco_spec a = deco_spec b"

definition set_remove :: "DecorationSet \<Rightarrow> Decoration list \<Rightarrow> DecorationSet" where
  "set_remove ds gone = filter (\<lambda>d. \<not> list_ex (deco_eq d) gone) ds"

definition set_add :: "DecorationSet \<Rightarrow> Decoration list \<Rightarrow> DecorationSet" where
  "set_add ds new = ds @ new"

record PlaceholderPluginState =
  decorationSet :: DecorationSet
  hasFocus :: bool

text \<open>\<^verbatim>\<open>initState\<close> and \<^verbatim>\<open>applyState\<close>, each with the counter of elements.\<close>

definition initState ::
  "(Node \<Rightarrow> bool) \<Rightarrow> (Node \<Rightarrow> Node option \<Rightarrow> string option) \<Rightarrow> EditorState \<Rightarrow> nat
     \<Rightarrow> PlaceholderPluginState \<times> nat" where
  "initState isNodeEmpty getPlaceholderContent state fresh0 =
     (case getPlaceholderWidgetSpecs isNodeEmpty getPlaceholderContent state fresh0 of
        ((widgetSpecs, foc), fresh') \<Rightarrow>
          (\<lparr>decorationSet = map Decoration_widget widgetSpecs, hasFocus = foc\<rparr>, fresh'))"

definition decorationsThatDidNotChange :: "DecorationSet \<Rightarrow> WidgetSpec list \<Rightarrow> Decoration list" where
  "decorationsThatDidNotChange oldMappedSet widgetSpecs =
     foldl (\<lambda>a w. (let deco = set_find oldMappedSet (widget_pos w) (widget_pos w)
                    in if length deco \<noteq> 0 \<and> deco_spec (hd deco) = widget_spec w then a @ deco else a))
       [] widgetSpecs"

definition applyState ::
  "(Node \<Rightarrow> bool) \<Rightarrow> (Node \<Rightarrow> Node option \<Rightarrow> string option) \<Rightarrow> Transaction \<Rightarrow> PlaceholderPluginState
     \<Rightarrow> EditorState \<Rightarrow> EditorState \<Rightarrow> nat \<Rightarrow> PlaceholderPluginState \<times> nat" where
  "applyState isNodeEmpty getPlaceholderContent tr oldPluginState oldState newState fresh0 =
     (case getPlaceholderWidgetSpecs isNodeEmpty getPlaceholderContent newState fresh0 of
        ((widgetSpecs, foc), fresh') \<Rightarrow>
          (let oldMappedSet = set_map (mapping tr) (decorationSet oldPluginState);
               unchanged = decorationsThatDidNotChange oldMappedSet widgetSpecs;
               newAddedDecorations =
                 filter (\<lambda>w. widget_pos w \<notin> set (map deco_from unchanged)) widgetSpecs;
               notRelevantDecorations = set_remove oldMappedSet unchanged;
               newSet = oldMappedSet;
               newSet = (if length notRelevantDecorations \<noteq> 0
                         then set_remove newSet notRelevantDecorations else newSet);
               newSet = (if length newAddedDecorations \<noteq> 0
                         then set_add newSet (map Decoration_widget newAddedDecorations) else newSet)
           in (\<lparr>decorationSet = newSet, hasFocus = foc\<rparr>, fresh')))"

section \<open>The placeholder plugin: notions for the properties\<close>

text \<open>
  A decoration of the remapped old set is wanted when the new widget specs hold one at its
  position with an equal spec; a widget spec is held when the remapped old set has a
  decoration at its position with an equal spec.
\<close>

definition wanted :: "WidgetSpec list \<Rightarrow> Decoration \<Rightarrow> bool" where
  "wanted widgetSpecs d =
     list_ex (\<lambda>w. widget_pos w = deco_from d \<and> widget_spec w = deco_spec d) widgetSpecs"

definition held :: "DecorationSet \<Rightarrow> WidgetSpec \<Rightarrow> bool" where
  "held ds w = list_ex (\<lambda>d. deco_from d = widget_pos w \<and> deco_spec d = widget_spec w) ds"

text \<open>
  The nodes that can get a placeholder in a state: the descendants of the document and the
  closest ancestor of the selection start with a placeholder spec, each with its position
  and the parent passed along, as far as \<^verbatim>\<open>placeholderNeeded\<close> holds of them.
\<close>

definition cursor_candidate :: "ResolvedPos \<Rightarrow> (Node \<times> nat \<times> Node option) list" where
  "cursor_candidate rpos =
     (case findParentNodeClosestToPos rpos (\<lambda>node. placeholder (ntype node) \<noteq> None) of
        None \<Rightarrow> []
      | Some (node, pos, depth) \<Rightarrow>
          [(node, pos, if depth > 0 then Some (fst (rpos ! (depth - 1))) else None)])"

definition placeholder_candidates :: "(Node \<Rightarrow> bool) \<Rightarrow> EditorState \<Rightarrow> (Node \<times> nat \<times> Node option) list" where
  "placeholder_candidates isNodeEmpty state =
     filter (\<lambda>(node, pos, parent). placeholderNeeded isNodeEmpty node)
       (map (\<lambda>(node, pos, parent). (node, pos, Some parent)) (descendants (state_doc state))
        @ cursor_candidate (sel_from (selection state)))"

text \<open>
  Invariants of the widgets map while it is filled: a widget sits under its own position
  and its element was made by this computation; the positions are distinct.
\<close>

definition entry_ok :: "nat \<Rightarrow> nat \<Rightarrow> nat \<times> WidgetsEntry \<Rightarrow> bool" where
  "entry_ok lo hi ke = (case snd ke of Key k \<Rightarrow> True
      | Widget w \<Rightarrow> widget_pos w = fst ke \<and> lo \<le> dom_id (toDOM w) \<and> dom_id (toDOM w) < hi)"

definition placing_ok :: "nat \<Rightarrow> Placing \<Rightarrow> bool" where
  "placing_ok lo st \<longleftrightarrow> distinct (map fst (widgetsMap st)) \<and> lo \<le> fresh st
     \<and> list_all (entry_ok lo (fresh st)) (widgetsMap st)"

text \<open>A widget of the map was placed for one of the given nodes and shows its content.\<close>

definition placed_by :: "(Node \<Rightarrow> Node option \<Rightarrow> string option) \<Rightarrow> (Node \<times> nat \<times> Node option) list \<Rightarrow> nat \<times> WidgetsEntry \<Rightarrow> bool" where
  "placed_by G cands ke = (case snd ke of Key k \<Rightarrow> True
      | Widget w \<Rightarrow> list_ex (\<lambda>(node, pos, parent). fst ke = pos + childCount node + 1
            \<and> G node parent = Some (dom_text (toDOM w))) cands)"

section \<open>The placeholder plugin: instances to run\<close>

definition box_ph :: NodeType where
  "box_ph = \<lparr>type_name = ''box'', isText = False, isLeaf = False,
     placeholder = Some \<lparr>customPlugin = None, alwaysVisible = True\<rparr>\<rparr>"

definition par_ph :: NodeType where
  "par_ph = \<lparr>type_name = ''paragraph'', isText = False, isLeaf = False,
     placeholder = Some \<lparr>customPlugin = None, alwaysVisible = True\<rparr>\<rparr>"

definition boxed :: Node where
  "boxed = Node doc_type [Node box_ph [Node par_ph [] []] []] []"

definition content_by_type :: "Node \<Rightarrow> Node option \<Rightarrow> string option" where
  "content_by_type n parent = Some (type_name (ntype n))"

definition always_empty :: "Node \<Rightarrow> bool" where
  "always_empty n = True"

definition state_boxed :: EditorState where
  "state_boxed = \<lparr>schema_nodes = [doc_type, box_ph, par_ph, text_type], state_doc = boxed,
     selection = \<lparr>isTextSelection = True, cursor = Some 2,
                  sel_from = [(boxed, 0), (Node box_ph [Node par_ph [] []] [], 0), (Node par_ph [] [], 1)]\<rparr>,
     custom_decorations = (\<lambda>k. [])\<rparr>"

definition placing0 :: Placing where
  "placing0 = \<lparr>widgetsMap = [], gs_hasFocus = False, fresh = 0\<rparr>"











section \<open>Decimal rendering\<close>

lemma digit_val_digit_char: "d < 10 \<Longrightarrow> digit_val (digit_char d) = d"
  by (simp add: digit_val_def digit_char_def)

lemma decimal_value_snoc: "decimal_value (s @ [c]) = 10 * decimal_value s + digit_val c"
  by (simp add: decimal_value_def)

lemma decimal_value_String_nat: "decimal_value (String_nat n) = n"
proof (induction n rule: String_nat.induct)
  case (1 n)
  show ?case
  proof (cases "n < 10")
    case True
    then show ?thesis
      by (simp add: String_nat.simps [of n] decimal_value_def digit_val_digit_char)
  next
    case False
    with 1 have "decimal_value (String_nat (n div 10)) = n div 10" by simp
    with False show ?thesis
      by (simp add: String_nat.simps [of n] decimal_value_snoc digit_val_digit_char)
  qed
qed

lemma String_nat_digits: "c \<in> set (String_nat n) \<Longrightarrow> c \<in> digit_char ` {..<10}"
proof (induction n rule: String_nat.induct)
  case (1 n)
  show ?case
  proof (cases "n < 10")
    case True
    with 1(2) show ?thesis by (simp add: String_nat.simps [of n])
  next
    case False
    with 1 show ?thesis by (auto simp: String_nat.simps [of n])
  qed
qed

section \<open>Image height is capped\<close>

text \<open>
  C10. For every loaded image, \<^verbatim>\<open>getImageSize\<close> returns as height the decimal
  string of the minimum of \<^verbatim>\<open>IMG_MAX_HEIGHT\<close> and the image's height; the string is
  made of decimal digits only, and the number it denotes never exceeds the maximum.
\<close>

theorem getImageSize_height_capped:
  "attr_height (getImageSize IMG_MAX_HEIGHT img)
     = Some (String_nat (min IMG_MAX_HEIGHT (img_height img)))
   \<and> set (String_nat (min IMG_MAX_HEIGHT (img_height img))) \<subseteq> digit_char ` {..<10}
   \<and> decimal_value (the (attr_height (getImageSize IMG_MAX_HEIGHT img)))
       = min IMG_MAX_HEIGHT (img_height img)
   \<and> decimal_value (the (attr_height (getImageSize IMG_MAX_HEIGHT img))) \<le> IMG_MAX_HEIGHT"
  using String_nat_digits
  by (auto simp: getImageSize_def decimal_value_String_nat)

section \<open>Emptiness of the document\<close>

text \<open>
  C4. \<^verbatim>\<open>isEmpty()\<close> is true if and only if the document tree is exactly one childless
  default block node (a paragraph).
\<close>

theorem isEmpty_iff_one_childless_default_block:
  "isEmpty doc \<longleftrightarrow> one_childless_default_block doc"
proof (cases "children doc")
  case Nil
  then show ?thesis
    by (simp add: isEmpty_def one_childless_default_block_def childCount_def firstChild_def)
next
  case (Cons c cs)
  then show ?thesis
    by (auto simp: isEmpty_def one_childless_default_block_def childCount_def firstChild_def)
qed

text \<open>
  The scenario of C4 on its trees: the document of one empty paragraph (an editor made
  with no initial content, or cleared) is empty, the one whose paragraph holds the text
  \<^verbatim>\<open>x\<close> is not.
\<close>

theorem isEmpty_scenario:
  "isEmpty empty_doc \<and> \<not> isEmpty doc_x \<and> one_childless_default_block empty_doc
   \<and> \<not> one_childless_default_block doc_x"
  using isEmpty_iff_one_childless_default_block [of empty_doc]
    isEmpty_iff_one_childless_default_block [of doc_x]
  by (simp add: isEmpty_def empty_doc_def doc_x_def childCount_def firstChild_def paragraph_type_def)

section \<open>Dispatch of a transaction\<close>

lemma tryOnChange_returns:
  "tryOnChange which cb e =
     Inr (e\<lparr>events := events e @ calls_of which cb (view_state e),
            caller := after_callback cb (view_state e) (caller e),
            console_error := console_error e @ thrown cb (view_state e) (caller e)\<rparr>)"
proof (cases cb)
  case None
  then show ?thesis
    by (simp add: tryOnChange_def thrown_def calls_of_def after_callback_def)
next
  case (Some f)
  obtain r u where f: "f (view_state e) (caller e) = (r, u)"
    by (cases "f (view_state e) (caller e)") auto
  show ?thesis
    by (cases r) (simp_all add: Some f tryOnChange_def thrown_def calls_of_def after_callback_def)
qed

lemma dispatchTransaction_result:
  "dispatchTransaction apply logTransactionMetrics opts tr editor =
     Inr (editor\<lparr>view_state := apply tr (view_state editor),
            console_error := console_error editor
              @ thrown (onChange opts) (apply tr (view_state editor)) (caller editor)
              @ (if docChanged tr
                 then thrown (onDocChange opts) (apply tr (view_state editor))
                        (after_callback (onChange opts) (apply tr (view_state editor)) (caller editor))
                 else []),
            logger := logTransactionMetrics tr (logger editor),
            events := events editor
              @ [UpdateState (apply tr (view_state editor))]
              @ calls_of OnChangeOption (onChange opts) (apply tr (view_state editor))
              @ (if docChanged tr
                 then calls_of OnDocChangeOption (onDocChange opts) (apply tr (view_state editor))
                 else [])
              @ [MetricsLogged],
            caller :=
              (if docChanged tr
               then after_callback (onDocChange opts) (apply tr (view_state editor))
                      (after_callback (onChange opts) (apply tr (view_state editor)) (caller editor))
               else after_callback (onChange opts) (apply tr (view_state editor)) (caller editor))\<rparr>)"
  by (simp add: dispatchTransaction_def Let_def then_do_def tryOnChange_returns)

text \<open>
  C7. Whatever the change and document-change callbacks do, throwing included, the
  dispatch returns normally, the view holds the state that the transaction produces, and
  what the callbacks threw is on the error console, in the order of the calls.
\<close>

theorem dispatchTransaction_survives_throwing_callbacks:
  "\<exists>editor'. dispatchTransaction apply logTransactionMetrics opts tr editor = Inr editor'
     \<and> view_state editor' = apply tr (view_state editor)
     \<and> console_error editor' = console_error editor
          @ thrown (onChange opts) (apply tr (view_state editor)) (caller editor)
          @ (if docChanged tr
             then thrown (onDocChange opts) (apply tr (view_state editor))
                    (after_callback (onChange opts) (apply tr (view_state editor)) (caller editor))
             else [])"
  by (simp add: dispatchTransaction_result)

text \<open>Both callbacks throw; the state is committed and both failures are logged.\<close>

theorem dispatchTransaction_survives_witness:
  "\<exists>editor'. dispatchTransaction count_applied count_metrics
       \<lparr>onChange = Some (throwing ''onChange''), onDocChange = Some (throwing ''onDocChange'')\<rparr>
       tr_typing editor0 = Inr editor'
     \<and> view_state editor' = 1
     \<and> console_error editor' = [''callback failed'', ''callback failed'']"
  using dispatchTransaction_survives_throwing_callbacks
    [of count_applied count_metrics
        "\<lparr>onChange = Some (throwing ''onChange''), onDocChange = Some (throwing ''onDocChange'')\<rparr>"
        tr_typing editor0]
  by (simp add: count_applied_def editor0_def thrown_def throwing_def tr_typing_def)

text \<open>
  C8. Every dispatched transaction invokes the change callback, and invokes the
  document-change callback if and only if the transaction's \<^verbatim>\<open>docChanged\<close> flag is
  set, whichever of the two callbacks the options give: the caller's state after the
  dispatch is its state before, acted on by the change callback and then, when the
  document changed and only then, by the document-change callback, each called once on
  the editor in its new state. A callback that the options do not give is not there to be
  invoked, and the other one is invoked all the same.
\<close>

theorem dispatchTransaction_calls_callbacks:
  "\<exists>editor'. dispatchTransaction apply logTransactionMetrics opts tr editor = Inr editor'
     \<and> caller editor' =
         (if docChanged tr
          then after_callback (onDocChange opts) (apply tr (view_state editor))
                 (after_callback (onChange opts) (apply tr (view_state editor)) (caller editor))
          else after_callback (onChange opts) (apply tr (view_state editor)) (caller editor))
     \<and> times_called OnChangeOption (new_events editor editor')
         = (if onChange opts = None then 0 else 1)
     \<and> times_called OnDocChangeOption (new_events editor editor')
         = (if docChanged tr \<and> onDocChange opts \<noteq> None then 1 else 0)"
  by (cases "onChange opts"; cases "onDocChange opts")
    (simp_all add: dispatchTransaction_result new_events_def times_called_def calls_of_def)

text \<open>
  With only a document-change callback: it is not called when the selection moves and is
  called when the document changes. With both callbacks and a change of the document:
  both are called, the change callback although it throws.
\<close>

theorem dispatchTransaction_calls_callbacks_witness:
  "(\<exists>editor'. dispatchTransaction count_applied count_metrics
       \<lparr>onChange = None, onDocChange = Some (returning ''onDocChange'')\<rparr> tr_selection editor0
         = Inr editor'
     \<and> caller editor' = []
     \<and> times_called OnDocChangeOption (new_events editor0 editor') = 0)
   \<and> (\<exists>editor'. dispatchTransaction count_applied count_metrics
       \<lparr>onChange = None, onDocChange = Some (returning ''onDocChange'')\<rparr> tr_typing editor0
         = Inr editor'
     \<and> caller editor' = [''onDocChange'']
     \<and> times_called OnDocChangeOption (new_events editor0 editor') = 1)
   \<and> (\<exists>editor'. dispatchTransaction count_applied count_metrics
       \<lparr>onChange = Some (throwing ''onChange''), onDocChange = Some (returning ''onDocChange'')\<rparr>
       tr_typing editor0 = Inr editor'
     \<and> caller editor' = [''onChange'', ''onDocChange'']
     \<and> times_called OnChangeOption (new_events editor0 editor') = 1
     \<and> times_called OnDocChangeOption (new_events editor0 editor') = 1)"
  using dispatchTransaction_calls_callbacks
    [of count_applied count_metrics
        "\<lparr>onChange = None, onDocChange = Some (returning ''onDocChange'')\<rparr>" tr_selection editor0]
    dispatchTransaction_calls_callbacks
    [of count_applied count_metrics
        "\<lparr>onChange = None, onDocChange = Some (returning ''onDocChange'')\<rparr>" tr_typing editor0]
    dispatchTransaction_calls_callbacks
    [of count_applied count_metrics
        "\<lparr>onChange = Some (throwing ''onChange''), onDocChange = Some (returning ''onDocChange'')\<rparr>"
        tr_typing editor0]
  by (auto simp: tr_selection_def tr_typing_def after_callback_def returning_def throwing_def
      editor0_def)

text \<open>
  C9, as the claim states it, fails: the options may give a document-change callback and
  no change callback. Then a transaction that changes the document has the
  document-change callback called (it adds its name to the caller's list) and no call of
  a change callback before it.
\<close>

theorem docChange_without_change_counterexample:
  "dispatchTransaction count_applied count_metrics
       \<lparr>onChange = None, onDocChange = Some (returning ''onDocChange'')\<rparr> tr_typing editor0
     = Inr editor_docChange_only
   \<and> caller editor_docChange_only = [''onDocChange'']
   \<and> times_called OnDocChangeOption (new_events editor0 editor_docChange_only) = 1
   \<and> times_called OnChangeOption (new_events editor0 editor_docChange_only) = 0
   \<and> \<not> change_before_docChange (new_events editor0 editor_docChange_only)"
  by (simp add: dispatchTransaction_result editor_docChange_only_def editor0_def tr_typing_def
      count_applied_def count_metrics_def calls_of_def thrown_def after_callback_def
      returning_def new_events_def times_called_def)

text \<open>
  C9, amended. What one dispatch does is in a fixed order: the view takes the new state,
  then the change callback is called if the options give one, then (when the document
  changed) the document-change callback if the options give one, then the metrics are
  logged. The callbacks are called on the editor in its new state, and the
  document-change callback acts on the caller's state as the change callback left it.
  When the options give a change callback, the document-change callback is never called
  without the change callback having been called before it for the same transaction.
\<close>

theorem dispatchTransaction_order:
  "\<exists>editor'. dispatchTransaction apply logTransactionMetrics opts tr editor = Inr editor'
     \<and> view_state editor' = apply tr (view_state editor)
     \<and> new_events editor editor' =
         UpdateState (apply tr (view_state editor))
         # calls_of OnChangeOption (onChange opts) (apply tr (view_state editor))
         @ (if docChanged tr
            then calls_of OnDocChangeOption (onDocChange opts) (apply tr (view_state editor)) else [])
         @ [MetricsLogged]
     \<and> caller editor' =
         (if docChanged tr
          then after_callback (onDocChange opts) (apply tr (view_state editor))
                 (after_callback (onChange opts) (apply tr (view_state editor)) (caller editor))
          else after_callback (onChange opts) (apply tr (view_state editor)) (caller editor))
     \<and> (onChange opts \<noteq> None \<longrightarrow>
           change_before_docChange (new_events editor editor')
           \<and> take 2 (new_events editor editor') =
               [UpdateState (apply tr (view_state editor)),
                CallbackCalled OnChangeOption (apply tr (view_state editor))])"
  by (cases "onChange opts"; cases "onDocChange opts")
    (simp_all add: dispatchTransaction_result new_events_def calls_of_def)

text \<open>
  Both callbacks are given and the document changes: the change callback, which throws,
  is called first, the document-change callback after it.
\<close>

theorem dispatchTransaction_order_witness:
  "\<exists>editor'. dispatchTransaction count_applied count_metrics
       \<lparr>onChange = Some (throwing ''onChange''), onDocChange = Some (returning ''onDocChange'')\<rparr>
       tr_typing editor0 = Inr editor'
     \<and> view_state editor' = 1
     \<and> new_events editor0 editor' =
         [UpdateState 1, CallbackCalled OnChangeOption 1, CallbackCalled OnDocChangeOption 1,
          MetricsLogged]
     \<and> caller editor' = [''onChange'', ''onDocChange'']
     \<and> change_before_docChange (new_events editor0 editor')"
  using dispatchTransaction_order
    [of count_applied count_metrics
        "\<lparr>onChange = Some (throwing ''onChange''), onDocChange = Some (returning ''onDocChange'')\<rparr>"
        tr_typing editor0]
  by (auto simp: count_applied_def editor0_def tr_typing_def calls_of_def after_callback_def
      returning_def throwing_def)

section \<open>Composition of extensions\<close>

lemma compose_append:
  "compose (xs @ ys) reg = (case compose xs reg of Inl err \<Rightarrow> Inl err | Inr r \<Rightarrow> compose ys r)"
  by (induction xs arbitrary: reg) (auto split: sum.splits)

lemma map_of_override:
  "map_of (map (\<lambda>(k, v). if k = k0 then (k, v0) else (k, v)) reg) k
     = (if k = k0 \<and> map_of reg k \<noteq> None then Some v0 else map_of reg k)"
  by (induction reg) (auto split: if_splits)

lemma register_lookup:
  assumes "register (ext, fam, key, ov, h) reg = Inr r"
  shows "map_of r k = (if k = (fam, key) then Some (ext, h) else map_of reg k)"
  using assms
  by (auto simp: map_of_override map_add_def split: option.splits if_splits)

lemma compose_keeps_keys:
  "compose xs reg = Inr r \<Longrightarrow> map_of reg k \<noteq> None \<Longrightarrow> map_of r k \<noteq> None"
proof (induction xs arbitrary: reg)
  case Nil
  then show ?case by simp
next
  case (Cons c cs)
  obtain ext fam key ov h where c: "c = (ext, fam, key, ov, h)" by (cases c) auto
  from Cons.prems(1) obtain reg' where reg': "register c reg = Inr reg'" "compose cs reg' = Inr r"
    by (auto split: sum.splits)
  have "map_of reg' k \<noteq> None"
    using register_lookup [OF reg'(1) [unfolded c], of k] Cons.prems(2) by (auto split: if_splits)
  then show ?case using Cons.IH [OF reg'(2)] by simp
qed

lemma compose_owner:
  "compose xs reg = Inr r \<Longrightarrow> map_of r (fam, key) = Some (owner, h) \<Longrightarrow>
     map_of reg (fam, key) = Some (owner, h) \<or> (\<exists>ov. (owner, fam, key, ov, h) \<in> set xs)"
proof (induction xs arbitrary: reg)
  case Nil
  then show ?case by simp
next
  case (Cons c cs)
  obtain ext fam' key' ov h' where c: "c = (ext, fam', key', ov, h')" by (cases c) auto
  from Cons.prems(1) obtain reg' where reg': "register c reg = Inr reg'" "compose cs reg' = Inr r"
    by (auto split: sum.splits)
  from Cons.IH [OF reg'(2) Cons.prems(2)]
  show ?case
  proof
    assume "map_of reg' (fam, key) = Some (owner, h)"
    then show ?thesis
      using register_lookup [OF reg'(1) [unfolded c], of "(fam, key)"] c
      by (auto split: if_splits)
  next
    assume "\<exists>ov. (owner, fam, key, ov, h) \<in> set cs"
    then show ?thesis by auto
  qed
qed

lemma compose_collision_origin:
  "compose xs reg = Inl (NameCollision fam key a b) \<Longrightarrow>
     \<exists>pre post h2 r' h1. xs = pre @ (b, fam, key, False, h2) # post
        \<and> compose pre reg = Inr r' \<and> map_of r' (fam, key) = Some (a, h1)"
proof (induction xs arbitrary: reg)
  case Nil
  then show ?case by simp
next
  case (Cons c cs)
  obtain ext fam' key' ov h' where c: "c = (ext, fam', key', ov, h')" by (cases c) auto
  show ?case
  proof (cases "register c reg")
    case (Inl err)
    with Cons.prems have err: "err = NameCollision fam key a b" by simp
    from Inl c err obtain h1 where "map_of reg (fam, key) = Some (a, h1)" "ov = False" "ext = b"
      "fam' = fam" "key' = key"
      by (auto split: option.splits if_splits)
    then have "c # cs = [] @ (b, fam, key, False, h') # cs \<and> compose [] reg = Inr reg
        \<and> map_of reg (fam, key) = Some (a, h1)"
      using c by simp
    then show ?thesis by blast
  next
    case (Inr reg')
    with Cons.prems have "compose cs reg' = Inl (NameCollision fam key a b)" by simp
    from Cons.IH [OF this] obtain pre post h2 r' h1 where
      "cs = pre @ (b, fam, key, False, h2) # post" "compose pre reg' = Inr r'"
      "map_of r' (fam, key) = Some (a, h1)" by blast
    then have "c # cs = (c # pre) @ (b, fam, key, False, h2) # post \<and> compose (c # pre) reg = Inr r'
        \<and> map_of r' (fam, key) = Some (a, h1)"
      using Inr by simp
    then show ?thesis by blast
  qed
qed

lemma compose_collision_names:
  assumes "compose xs [] = Inl (NameCollision fam key a b)"
  shows "\<exists>pre mid post ov1 h1 h2.
           xs = pre @ (a, fam, key, ov1, h1) # mid @ (b, fam, key, False, h2) # post"
proof -
  from compose_collision_origin [OF assms] obtain pre post h2 r' h1 where
    xs: "xs = pre @ (b, fam, key, False, h2) # post" and pre: "compose pre [] = Inr r'"
    and a: "map_of r' (fam, key) = Some (a, h1)" by blast
  from compose_owner [OF pre a] obtain ov where "(a, fam, key, ov, h1) \<in> set pre" by auto
  then obtain p1 p2 where "pre = p1 @ (a, fam, key, ov, h1) # p2"
    by (auto simp: in_set_conv_decomp)
  with xs have "xs = p1 @ (a, fam, key, ov, h1) # p2 @ (b, fam, key, False, h2) # post" by simp
  then show ?thesis by blast
qed

lemma compose_duplicate_fails:
  assumes "xs = pre @ (a, fam, key, ov1, h1) # mid @ (b, fam, key, False, h2) # post"
  shows "\<exists>err. compose xs reg = Inl err"
proof (rule ccontr)
  assume "\<not> (\<exists>err. compose xs reg = Inl err)"
  then obtain r where r: "compose xs reg = Inr r" by (cases "compose xs reg") auto
  have split: "xs = (pre @ [(a, fam, key, ov1, h1)]) @ mid @ ((b, fam, key, False, h2) # post)"
    using assms by simp
  from r obtain r1 where r1: "compose (pre @ [(a, fam, key, ov1, h1)]) reg = Inr r1"
      and rest: "compose (mid @ ((b, fam, key, False, h2) # post)) r1 = Inr r"
    unfolding split compose_append [of "pre @ [(a, fam, key, ov1, h1)]"]
    by (auto split: sum.splits)
  from r1 obtain r0 where r0: "compose pre reg = Inr r0" "register (a, fam, key, ov1, h1) r0 = Inr r1"
    unfolding compose_append [of pre] by (auto split: sum.splits)
  have held: "map_of r1 (fam, key) \<noteq> None"
    using register_lookup [OF r0(2), of "(fam, key)"] by simp
  from rest obtain r2 where r2: "compose mid r1 = Inr r2"
      and last: "compose ((b, fam, key, False, h2) # post) r2 = Inr r"
    unfolding compose_append [of mid] by (auto split: sum.splits)
  from compose_keeps_keys [OF r2 held] have "map_of r2 (fam, key) \<noteq> None" .
  then have "\<exists>err. register (b, fam, key, False, h2) r2 = Inl err"
    by (auto split: option.splits)
  with last show False by (auto split: sum.splits)
qed

lemma builder_calls_two:
  assumes "i < j" "j < length exts"
    and "ci \<in> set (contributions (exts ! i))" "cj \<in> set (contributions (exts ! j))"
  shows "\<exists>pre mid post. builder_calls exts =
           pre @ (ext_name (exts ! i), ci) # mid @ (ext_name (exts ! j), cj) # post"
proof -
  let ?calls = "\<lambda>e. map (\<lambda>c. (ext_name e, c)) (contributions e)"
  from assms(3) obtain a1 a2 where ci: "contributions (exts ! i) = a1 @ ci # a2"
    by (auto simp: in_set_conv_decomp)
  from assms(4) obtain b1 b2 where cj: "contributions (exts ! j) = b1 @ cj # b2"
    by (auto simp: in_set_conv_decomp)
  have i: "i < length exts" using assms by simp
  have "exts = take j exts @ exts ! j # drop (Suc j) exts"
    using assms(2) by (simp add: id_take_nth_drop)
  moreover have "take j exts = take i (take j exts) @ (take j exts) ! i # drop (Suc i) (take j exts)"
    using assms(1,2) by (intro id_take_nth_drop) simp
  moreover have "take j exts ! i = exts ! i" using assms(1) by simp
  ultimately have exts: "exts = (take i (take j exts) @ exts ! i # drop (Suc i) (take j exts))
      @ exts ! j # drop (Suc j) exts" by simp
  have "builder_calls exts = concat (map ?calls exts)" by (simp add: builder_calls_def)
  also have "\<dots> = concat (map ?calls (take i (take j exts))) @ ?calls (exts ! i)
      @ concat (map ?calls (drop (Suc i) (take j exts))) @ ?calls (exts ! j)
      @ concat (map ?calls (drop (Suc j) exts))"
    by (subst exts) simp
  also have "\<dots> = (concat (map ?calls (take i (take j exts))) @ map (\<lambda>c. (ext_name (exts ! i), c)) a1)
      @ (ext_name (exts ! i), ci)
      # (map (\<lambda>c. (ext_name (exts ! i), c)) a2 @ concat (map ?calls (drop (Suc i) (take j exts)))
          @ map (\<lambda>c. (ext_name (exts ! j), c)) b1)
      @ (ext_name (exts ! j), cj)
      # (map (\<lambda>c. (ext_name (exts ! j), c)) b2 @ concat (map ?calls (drop (Suc j) exts)))"
    by (simp add: ci cj)
  finally show ?thesis by blast
qed

text \<open>
  C2. When two extensions of the ordered list define the same node-type name and the
  later one is not marked as an override, the constructor ends with a construction error
  and builds nothing. The error names a family and key and two extensions of which the
  first contributed that key earlier in the composition and the second contributed it
  again without the override mark.
\<close>

theorem duplicate_node_type_is_construction_error:
  assumes "i < j" and "j < length (extensions opts)"
    and "(NodeTypeName, n, ov, h) \<in> set (contributions (extensions opts ! i))"
    and "(NodeTypeName, n, False, h') \<in> set (contributions (extensions opts ! j))"
  shows "\<exists>fam key a b. WysiwygEditor_constructor opts = Inl (NameCollision fam key a b)
     \<and> (\<exists>pre mid post ov1 h1 h2. builder_calls (extensions opts) =
           pre @ (a, fam, key, ov1, h1) # mid @ (b, fam, key, False, h2) # post)"
proof -
  from builder_calls_two [OF assms] obtain pre mid post where
    "builder_calls (extensions opts) = pre @ (ext_name (extensions opts ! i), NodeTypeName, n, ov, h)
       # mid @ (ext_name (extensions opts ! j), NodeTypeName, n, False, h') # post" by blast
  from compose_duplicate_fails [OF this] obtain err where
    err: "compose (builder_calls (extensions opts)) [] = Inl err" by blast
  obtain fam key a b where e: "err = NameCollision fam key a b" by (cases err) auto
  have "WysiwygEditor_constructor opts = Inl (NameCollision fam key a b)"
    using err e by (simp add: WysiwygEditor_constructor_def ExtensionsManager_process_def Let_def)
  with compose_collision_names [OF err [unfolded e]] show ?thesis by blast
qed

text \<open>
  Three extensions define the node type \<^verbatim>\<open>paragraph\<close>: the second overrides the first,
  the third is not marked, and the error names the second and the third.
\<close>

theorem duplicate_node_type_witness:
  "WysiwygEditor_constructor \<lparr>extensions = [ext_base, ext_override, ext_clash], modifiers = None\<rparr>
     = Inl (NameCollision NodeTypeName ''paragraph'' ''Override'' ''Clash'')"
  using duplicate_node_type_is_construction_error
    [of 0 2 "\<lparr>extensions = [ext_base, ext_override, ext_clash], modifiers = None\<rparr>"
        "''paragraph''" False "''p-spec''" "''other-spec''"]
  by (simp add: WysiwygEditor_constructor_def ExtensionsManager_process_def builder_calls_def
      ext_base_def ext_override_def ext_clash_def)

lemma resolve_handler_no_patches:
  "resolve_handler (patches_of \<lparr>schema_patches = [], parser_patches = [], serializer_patches = []\<rparr> fam) key h = h"
  by (cases fam) (simp_all add: resolve_handler_def)

lemma apply_modifiers_empty:
  "apply_modifiers \<lparr>schema_patches = [], parser_patches = [], serializer_patches = []\<rparr> reg = reg"
  unfolding apply_modifiers_def
  by (induction reg) (auto simp: resolve_handler_no_patches)

text \<open>
  C3. For every extension list, constructing the editor with the empty list of dynamic
  modifier configs gives the same result (the same error, or the same schema, parser rules
  and serializer rules) as constructing it with no \<^verbatim>\<open>modifiers\<close> option.
\<close>

theorem empty_modifiers_same_as_none:
  "WysiwygEditor_constructor (opts\<lparr>modifiers := Some []\<rparr>)
     = WysiwygEditor_constructor (opts\<lparr>modifiers := None\<rparr>)"
  by (simp add: WysiwygEditor_constructor_def ExtensionsManager_process_def
      convertDynamicModifiersConfigs_def Let_def apply_modifiers_empty split: sum.splits)

text \<open>A config that is not empty is not ignored: a patch under a key of the schema is applied,
  one under a key that no extension defined changes nothing.\<close>

lemma modifiers_take_effect:
  "WysiwygEditor_constructor \<lparr>extensions = [ext_base],
       modifiers = Some [\<lparr>schema_patches = [(''paragraph'', \<lambda>h. h @ ''!'')], parser_patches = [],
                          serializer_patches = [(''heading'', \<lambda>h. h @ ''!'')]\<rparr>]\<rparr>
     = Inr \<lparr>schema = [((NodeTypeName, ''paragraph''), ''p-spec!'')],
            markupParser = [(''paragraph'', ''p-token'')],
            serializer = [(''paragraph'', ''p-md'')]\<rparr>"
  by (simp add: WysiwygEditor_constructor_def ExtensionsManager_process_def builder_calls_def
      convertDynamicModifiersConfigs_def apply_modifiers_def resolve_handler_def table_of_def
      ext_base_def)

section \<open>Placement of placeholder widgets\<close>

lemma entry_ok_mono: "entry_ok lo hi ke \<Longrightarrow> hi \<le> hi' \<Longrightarrow> entry_ok lo hi' ke"
  by (auto simp: entry_ok_def split: WidgetsEntry.splits)

lemma list_all_update:
  "list_all P al \<Longrightarrow> P (k, v) \<Longrightarrow> list_all P (AList.update k v al)"
  by (induction al) auto

lemma createPlaceholder_Some:
  "createPlaceholder G node parent foc n = (Some el, n') \<Longrightarrow>
     n' = Suc n \<and> dom_id el = n \<and> dom_focus el = foc \<and> G node parent = Some (dom_text el)
       \<and> dom_text el \<noteq> []"
  by (auto simp: createPlaceholder_def split: option.splits if_splits)

lemma addDecoration_cases:
  obtains (same) "addDecoration G st node pos parent c = st"
  | (key) k where "map_of (widgetsMap st) (pos + childCount node + 1) = None"
      "placeholder (ntype node) \<noteq> None"
      "addDecoration G st node pos parent c =
         st\<lparr>widgetsMap := AList.update (pos + childCount node + 1) (Key k) (widgetsMap st)\<rparr>"
  | (widget) el where "map_of (widgetsMap st) (pos + childCount node + 1) = None"
      "placeholder (ntype node) \<noteq> None"
      "G node parent = Some (dom_text el)" "dom_text el \<noteq> []" "dom_id el = fresh st"
      "addDecoration G st node pos parent c =
         st\<lparr>widgetsMap := AList.update (pos + childCount node + 1)
                (Widget \<lparr>widget_pos = pos + childCount node + 1, toDOM = el,
                         widget_spec = \<lparr>focus = (c = Some (pos + childCount node + 1))\<rparr>\<rparr>)
                (widgetsMap st),
            gs_hasFocus := (if c = Some (pos + childCount node + 1) then True else gs_hasFocus st),
            fresh := Suc (fresh st)\<rparr>"
proof (cases "placeholder (ntype node)")
  case None
  then show ?thesis using same by (simp add: addDecoration_def)
next
  case (Some spec)
  show ?thesis
  proof (cases "map_of (widgetsMap st) (pos + childCount node + 1) \<noteq> None")
    case True
    then show ?thesis using same Some by (simp add: addDecoration_def)
  next
    case free: False
    show ?thesis
    proof (cases "customPlugin spec")
      case (Some k)
      then show ?thesis
        using key [of k] \<open>placeholder (ntype node) = Some spec\<close> free
        by (simp add: addDecoration_def)
    next
      case None
      show ?thesis
      proof (cases "createPlaceholder G node parent (c = Some (pos + childCount node + 1)) (fresh st)")
        case (Pair r n')
        show ?thesis
        proof (cases r)
          case None
          then show ?thesis
            using same \<open>placeholder (ntype node) = Some spec\<close> free \<open>customPlugin spec = None\<close> Pair
            by (simp add: addDecoration_def)
        next
          case (Some el)
          from createPlaceholder_Some [OF Pair [unfolded Some]]
          have "n' = Suc (fresh st)" "dom_id el = fresh st" "G node parent = Some (dom_text el)"
            "dom_text el \<noteq> []" by auto
          then show ?thesis
            using widget [of el] \<open>placeholder (ntype node) = Some spec\<close> free
              \<open>customPlugin spec = None\<close> Pair Some
            by (simp add: addDecoration_def Let_def)
        qed
      qed
    qed
  qed
qed

lemma addDecoration_ok:
  assumes "placing_ok lo st"
  shows "placing_ok lo (addDecoration G st node pos parent c)"
proof (cases rule: addDecoration_cases [of G st node pos parent c])
  case same
  then show ?thesis using assms by simp
next
  case (key k)
  then show ?thesis
    using assms by (simp add: placing_ok_def distinct_update list_all_update entry_ok_def)
next
  case (widget el)
  have "list_all (entry_ok lo (Suc (fresh st))) (widgetsMap st)"
    using assms by (auto simp: placing_ok_def list_all_iff intro: entry_ok_mono)
  then show ?thesis
    using assms widget
    by (simp add: placing_ok_def distinct_update list_all_update entry_ok_def)
qed

lemma addDecoration_keeps:
  assumes "map_of (widgetsMap st) p = Some e"
  shows "map_of (widgetsMap (addDecoration G st node pos parent c)) p = Some e"
  using assms
  by (cases rule: addDecoration_cases [of G st node pos parent c]) (auto simp: update_conv')

lemma addDecoration_fresh_mono: "fresh st \<le> fresh (addDecoration G st node pos parent c)"
  by (cases rule: addDecoration_cases [of G st node pos parent c]) auto

lemma addDecoration_placed_by:
  assumes "list_all (placed_by G cands) (widgetsMap st)" "(node, pos, parent) \<in> set cands"
  shows "list_all (placed_by G cands) (widgetsMap (addDecoration G st node pos parent c))"
proof (cases rule: addDecoration_cases [of G st node pos parent c])
  case same
  then show ?thesis using assms by simp
next
  case (key k)
  then show ?thesis using assms by (simp add: list_all_update placed_by_def)
next
  case (widget el)
  have "placed_by G cands (pos + childCount node + 1,
      Widget \<lparr>widget_pos = pos + childCount node + 1, toDOM = el,
              widget_spec = \<lparr>focus = (c = Some (pos + childCount node + 1))\<rparr>\<rparr>)"
    using assms(2) widget(3) by (auto simp: placed_by_def list_ex_iff)
  then show ?thesis using assms widget by (simp add: list_all_update)
qed

lemma decorate_cases:
  "decorate E G c (node, pos, parent) st = st
   \<or> (placeholderNeeded E node \<and> hasAlwaysVisible node
       \<and> decorate E G c (node, pos, parent) st = addDecoration G st node pos (Some parent) c)"
  by (simp add: decorate_def)

lemma decorate_cursor_cases:
  "decorate_cursor E G c rpos st = st
   \<or> (\<exists>node pos parent. cursor_candidate rpos = [(node, pos, parent)] \<and> placeholderNeeded E node
         \<and> \<not> hasAlwaysVisible node
         \<and> decorate_cursor E G c rpos st = addDecoration G st node pos parent c)"
  by (auto simp: decorate_cursor_def cursor_candidate_def split: option.splits)

lemma decorate_ok: "placing_ok lo st \<Longrightarrow> placing_ok lo (decorate E G c call st)"
  using decorate_cases [of E G c "fst call" "fst (snd call)" "snd (snd call)" st]
  by (auto simp: addDecoration_ok)

lemma fold_decorate_ok: "placing_ok lo st \<Longrightarrow> placing_ok lo (fold (decorate E G c) calls st)"
  by (induction calls arbitrary: st) (auto simp: decorate_ok)

lemma decorate_cursor_ok: "placing_ok lo st \<Longrightarrow> placing_ok lo (decorate_cursor E G c rpos st)"
  using decorate_cursor_cases [of E G c rpos st] by (auto simp: addDecoration_ok)

lemma decorate_keeps:
  "map_of (widgetsMap st) p = Some e \<Longrightarrow> map_of (widgetsMap (decorate E G c call st)) p = Some e"
  using decorate_cases [of E G c "fst call" "fst (snd call)" "snd (snd call)" st]
  by (auto simp: addDecoration_keeps)

lemma fold_decorate_keeps:
  "map_of (widgetsMap st) p = Some e \<Longrightarrow>
     map_of (widgetsMap (fold (decorate E G c) calls st)) p = Some e"
  by (induction calls arbitrary: st) (auto simp: decorate_keeps)

lemma decorate_cursor_keeps:
  "map_of (widgetsMap st) p = Some e \<Longrightarrow>
     map_of (widgetsMap (decorate_cursor E G c rpos st)) p = Some e"
  using decorate_cursor_cases [of E G c rpos st] by (auto simp: addDecoration_keeps)

lemma decorate_placed_by:
  assumes "list_all (placed_by G cands) (widgetsMap st)"
    and "placeholderNeeded E node \<Longrightarrow> (node, pos, Some parent) \<in> set cands"
  shows "list_all (placed_by G cands) (widgetsMap (decorate E G c (node, pos, parent) st))"
  using decorate_cases [of E G c node pos parent st] assms
  by (auto simp: addDecoration_placed_by)

lemma fold_decorate_placed_by:
  assumes "list_all (placed_by G cands) (widgetsMap st)"
    and "\<And>node pos parent. (node, pos, parent) \<in> set calls \<Longrightarrow> placeholderNeeded E node \<Longrightarrow>
           (node, pos, Some parent) \<in> set cands"
  shows "list_all (placed_by G cands) (widgetsMap (fold (decorate E G c) calls st))"
  using assms
proof (induction calls arbitrary: st)
  case Nil
  then show ?case by simp
next
  case (Cons call calls)
  obtain node pos parent where call: "call = (node, pos, parent)" by (cases call) auto
  have "list_all (placed_by G cands) (widgetsMap (decorate E G c call st))"
    unfolding call using Cons.prems call by (intro decorate_placed_by) auto
  then show ?case using Cons.IH Cons.prems(2) by simp
qed

lemma decorate_cursor_placed_by:
  assumes "list_all (placed_by G cands) (widgetsMap st)"
    and "\<And>node pos parent. cursor_candidate rpos = [(node, pos, parent)] \<Longrightarrow>
           placeholderNeeded E node \<Longrightarrow> (node, pos, parent) \<in> set cands"
  shows "list_all (placed_by G cands) (widgetsMap (decorate_cursor E G c rpos st))"
  using decorate_cursor_cases [of E G c rpos st] assms
  by (auto simp: addDecoration_placed_by)

lemma fold_update_keys:
  "distinct (map fst wm) \<Longrightarrow> list_all (\<lambda>ke. \<exists>k. snd ke = Key k) wm \<Longrightarrow>
     distinct (map fst (fold (\<lambda>p m. AList.update p (Key f) m) ps wm))
     \<and> list_all (\<lambda>ke. \<exists>k. snd ke = Key k) (fold (\<lambda>p m. AList.update p (Key f) m) ps wm)"
  by (induction ps arbitrary: wm) (auto simp: distinct_update list_all_update)

lemma mark_custom_keys:
  "distinct (map fst (mark_custom state [])) \<and> list_all (\<lambda>ke. \<exists>k. snd ke = Key k) (mark_custom state [])"
proof -
  have "distinct (map fst wm) \<Longrightarrow> list_all (\<lambda>ke. \<exists>k. snd ke = Key k) wm \<Longrightarrow>
     distinct (map fst (fold (\<lambda>f m. fold (\<lambda>p m'. AList.update p (Key f) m') (custom_decorations state f) m) fs wm))
     \<and> list_all (\<lambda>ke. \<exists>k. snd ke = Key k)
         (fold (\<lambda>f m. fold (\<lambda>p m'. AList.update p (Key f) m') (custom_decorations state f) m) fs wm)"
    for fs and wm :: WidgetsMap
  proof (induction fs arbitrary: wm)
    case Nil
    then show ?case by simp
  next
    case (Cons f fs)
    from fold_update_keys [OF Cons.prems, of f "custom_decorations state f"]
    show ?case using Cons.IH by simp
  qed
  from this [of "[]"] show ?thesis by (simp add: mark_custom_def)
qed

lemma placing_invariants:
  "placing_ok fresh0 (placing E G state fresh0)
   \<and> list_all (placed_by G (placeholder_candidates E state)) (widgetsMap (placing E G state fresh0))"
proof -
  let ?c = "if isTextSelection (selection state) then cursor (selection state) else None"
  let ?st0 = "\<lparr>widgetsMap = mark_custom state [], gs_hasFocus = False, fresh = fresh0\<rparr>"
  let ?st1 = "fold (decorate E G ?c) (descendants (state_doc state)) ?st0"
  have keys: "list_all (\<lambda>ke. \<exists>k. snd ke = Key k) (mark_custom state [])"
    using mark_custom_keys by simp
  have ok0: "placing_ok fresh0 ?st0"
    using mark_custom_keys [of state]
    by (auto simp: placing_ok_def list_all_iff entry_ok_def)
  have by0: "list_all (placed_by G (placeholder_candidates E state)) (widgetsMap ?st0)"
    using keys by (auto simp: list_all_iff placed_by_def)
  have by1: "list_all (placed_by G (placeholder_candidates E state)) (widgetsMap ?st1)"
    by (rule fold_decorate_placed_by [OF by0]) (force simp: placeholder_candidates_def)
  have by2: "list_all (placed_by G (placeholder_candidates E state))
      (widgetsMap (decorate_cursor E G ?c (sel_from (selection state)) ?st1))"
    by (rule decorate_cursor_placed_by [OF by1]) (simp add: placeholder_candidates_def)
  show ?thesis
    using decorate_cursor_ok [OF fold_decorate_ok [OF ok0]] by2
    by (simp add: placing_def Let_def)
qed

lemma in_widgets_of: "w \<in> set (widgets_of wm) \<longleftrightarrow> (\<exists>k. (k, Widget w) \<in> set wm)"
proof -
  have "w \<in> set (List.map_filter widget_of es) \<longleftrightarrow> Widget w \<in> set es" for es
  proof (induction es)
    case Nil
    then show ?case by (simp add: List.map_filter_simps)
  next
    case (Cons e es)
    then show ?case by (cases e) (auto simp: List.map_filter_simps)
  qed
  then show ?thesis by (force simp: widgets_of_def)
qed

lemma widgets_of_distinct:
  assumes "distinct (map fst wm)" "list_all (entry_ok lo hi) wm"
  shows "distinct (map widget_pos (widgets_of wm))"
proof -
  have "distinct (map fst l) \<Longrightarrow> list_all (entry_ok lo hi) l \<Longrightarrow>
      distinct (map widget_pos (List.map_filter widget_of (map snd l)))
      \<and> set (map widget_pos (List.map_filter widget_of (map snd l))) \<subseteq> fst ` set l"
    for l :: WidgetsMap
  proof (induction l)
    case Nil
    then show ?case by (simp add: List.map_filter_simps)
  next
    case (Cons ke l)
    obtain k e where ke: "ke = (k, e)" by (cases ke) auto
    show ?case
    proof (cases e)
      case (Widget w)
      then show ?thesis
        using Cons ke by (auto simp: List.map_filter_simps entry_ok_def)
    next
      case (Key x)
      then show ?thesis
        using Cons ke by (auto simp: List.map_filter_simps)
    qed
  qed
  moreover have "distinct (map fst (sort_key fst wm))"
    using assms(1) by (simp add: distinct_map)
  moreover have "list_all (entry_ok lo hi) (sort_key fst wm)"
    using assms(2) by (simp add: list_all_iff)
  ultimately show ?thesis by (simp add: widgets_of_def)
qed


text \<open>
  C6. \<^verbatim>\<open>addDecoration\<close> never overwrites a position that the widgets map already
  holds; the widget specs computed for a state have distinct positions; a node with a
  descendant whose placeholder is always visible does not need a placeholder, so neither
  the walk over the document nor the cursor step places one for it; and every widget
  computed was placed for a node that needs a placeholder, hence has no such descendant,
  and shows that node's content.
\<close>

theorem placeholder_placement:
  "(\<forall>p e. map_of (widgetsMap st) p = Some e \<longrightarrow>
       map_of (widgetsMap (addDecoration G st node pos parent c)) p = Some e)
   \<and> distinct (map widget_pos (fst (fst (getPlaceholderWidgetSpecs E G state fresh0))))
   \<and> (findChildren node hasAlwaysVisible \<noteq> [] \<longrightarrow>
         \<not> placeholderNeeded E node \<and> decorate E G c (node, pos, par) st = st
         \<and> (cursor_candidate rpos = [(node, pos, parent)] \<longrightarrow> decorate_cursor E G c rpos st = st))
   \<and> (\<forall>w \<in> set (fst (fst (getPlaceholderWidgetSpecs E G state fresh0))).
         \<exists>(n, p, pa) \<in> set (placeholder_candidates E state).
            widget_pos w = p + childCount n + 1 \<and> G n pa = Some (dom_text (toDOM w))
            \<and> placeholderNeeded E n \<and> findChildren n hasAlwaysVisible = [])"
proof (intro conjI)
  show "\<forall>p e. map_of (widgetsMap st) p = Some e \<longrightarrow>
       map_of (widgetsMap (addDecoration G st node pos parent c)) p = Some e"
    by (simp add: addDecoration_keeps)
next
  from placing_invariants [of fresh0 E G state]
  show "distinct (map widget_pos (fst (fst (getPlaceholderWidgetSpecs E G state fresh0))))"
    by (auto simp: getPlaceholderWidgetSpecs_def Let_def placing_ok_def intro: widgets_of_distinct)
next
  show "findChildren node hasAlwaysVisible \<noteq> [] \<longrightarrow>
         \<not> placeholderNeeded E node \<and> decorate E G c (node, pos, par) st = st
         \<and> (cursor_candidate rpos = [(node, pos, parent)] \<longrightarrow> decorate_cursor E G c rpos st = st)"
    by (auto simp: placeholderNeeded_def decorate_def decorate_cursor_def cursor_candidate_def
        split: option.splits)
next
  show "\<forall>w \<in> set (fst (fst (getPlaceholderWidgetSpecs E G state fresh0))).
         \<exists>(n, p, pa) \<in> set (placeholder_candidates E state).
            widget_pos w = p + childCount n + 1 \<and> G n pa = Some (dom_text (toDOM w))
            \<and> placeholderNeeded E n \<and> findChildren n hasAlwaysVisible = []"
  proof
    fix w
    assume "w \<in> set (fst (fst (getPlaceholderWidgetSpecs E G state fresh0)))"
    then obtain k where k: "(k, Widget w) \<in> set (widgetsMap (placing E G state fresh0))"
      by (auto simp: getPlaceholderWidgetSpecs_def Let_def in_widgets_of)
    from placing_invariants [of fresh0 E G state] k
    have "placed_by G (placeholder_candidates E state) (k, Widget w)"
      and "entry_ok fresh0 (fresh (placing E G state fresh0)) (k, Widget w)"
      by (auto simp: list_all_iff placing_ok_def)
    then obtain n p pa where cand: "(n, p, pa) \<in> set (placeholder_candidates E state)"
      and at: "widget_pos w = p + childCount n + 1" "G n pa = Some (dom_text (toDOM w))"
      by (auto simp: placed_by_def entry_ok_def list_ex_iff)
    from cand have "placeholderNeeded E n" by (auto simp: placeholder_candidates_def)
    moreover from this have "findChildren n hasAlwaysVisible = []"
      by (simp add: placeholderNeeded_def)
    ultimately show "\<exists>(n, p, pa) \<in> set (placeholder_candidates E state).
            widget_pos w = p + childCount n + 1 \<and> G n pa = Some (dom_text (toDOM w))
            \<and> placeholderNeeded E n \<and> findChildren n hasAlwaysVisible = []"
      using cand at by blast
  qed
qed

text \<open>
  A box with an always-visible placeholder holds one empty paragraph with an
  always-visible placeholder; both would decorate position 2. The one widget there is the
  paragraph's.
\<close>

lemma boxed_widgets:
  "getPlaceholderWidgetSpecs always_empty content_by_type state_boxed 0
     = (([\<lparr>widget_pos = 2, toDOM = \<lparr>dom_id = 0, dom_focus = True, dom_text = ''paragraph''\<rparr>,
           widget_spec = \<lparr>focus = True\<rparr>\<rparr>], True), 1)"
  by code_simp

lemma boxed_children: "findChildren (Node box_ph [Node par_ph [] []] []) hasAlwaysVisible \<noteq> []"
  by code_simp

theorem placeholder_placement_witness:
  "getPlaceholderWidgetSpecs always_empty content_by_type state_boxed 0
     = (([\<lparr>widget_pos = 2, toDOM = \<lparr>dom_id = 0, dom_focus = True, dom_text = ''paragraph''\<rparr>,
           widget_spec = \<lparr>focus = True\<rparr>\<rparr>], True), 1)
   \<and> findChildren (Node box_ph [Node par_ph [] []] []) hasAlwaysVisible \<noteq> []
   \<and> \<not> placeholderNeeded always_empty (Node box_ph [Node par_ph [] []] [])
   \<and> decorate always_empty content_by_type (Some 2)
        (Node box_ph [Node par_ph [] []] [], 0, boxed) placing0 = placing0
   \<and> map_of (widgetsMap (addDecoration content_by_type
          (placing0\<lparr>widgetsMap := [(2, Key ''custom'')]\<rparr>) (Node par_ph [] []) 1 None (Some 2))) 2
       = Some (Key ''custom'')"
  using placeholder_placement
    [of "placing0\<lparr>widgetsMap := [(2, Key ''custom'')]\<rparr>" content_by_type "Node par_ph [] []" 1 None
        "Some 2" always_empty state_boxed 0 ]
    placeholder_placement
    [of placing0 content_by_type "Node box_ph [Node par_ph [] []] []" 0 None
        "Some 2" always_empty state_boxed 0 boxed "[]"]
    boxed_widgets boxed_children
  by simp


section \<open>Stability of decorations across a transaction\<close>

lemma same_key_same:
  "distinct (map f xs) \<Longrightarrow> x \<in> set xs \<Longrightarrow> y \<in> set xs \<Longrightarrow> f x = f y \<Longrightarrow> x = y"
  by (simp add: distinct_map inj_on_def)

lemma filter_same_key:
  "distinct (map f xs) \<Longrightarrow> x \<in> set xs \<Longrightarrow> filter (\<lambda>y. f y = f x) xs = [x]"
proof (induction xs)
  case Nil
  then show ?case by simp
next
  case (Cons a xs)
  show ?case
  proof (cases "x = a")
    case True
    have "f y \<noteq> f a" if "y \<in> set xs" for y
      using Cons.prems(1) that by (metis distinct.simps(2) image_eqI list.simps(9) set_map)
    then have "filter (\<lambda>y. f y = f a) xs = []"
      by (simp add: filter_empty_conv)
    with True show ?thesis by simp
  next
    case False
    with Cons show ?thesis by auto
  qed
qed

lemma set_find_at:
  assumes "distinct (map deco_from ds)"
  shows "set_find ds p p = [] \<and> (\<forall>d\<in>set ds. deco_from d \<noteq> p)
       \<or> (\<exists>d\<in>set ds. deco_from d = p \<and> set_find ds p p = [d])"
proof (cases "\<exists>d\<in>set ds. deco_from d = p")
  case True
  then obtain d where d: "d \<in> set ds" "deco_from d = p" by blast
  have "set_find ds p p = filter (\<lambda>y. deco_from y = deco_from d) ds"
    unfolding set_find_def using d(2) by (intro filter_cong) auto
  with filter_same_key [OF assms d(1)] d show ?thesis by auto
next
  case False
  then have "set_find ds p p = []" by (auto simp: set_find_def filter_empty_conv)
  with False show ?thesis by simp
qed

lemma unchanged_fold:
  assumes "distinct (map deco_from ds)"
  shows "set (foldl (\<lambda>a w. (let deco = set_find ds (widget_pos w) (widget_pos w)
                    in if length deco \<noteq> 0 \<and> deco_spec (hd deco) = widget_spec w then a @ deco else a))
            acc ws)
         = set acc \<union> {d \<in> set ds. wanted ws d}"
proof (induction ws arbitrary: acc)
  case Nil
  then show ?case by (simp add: wanted_def)
next
  case (Cons w ws)
  let ?here = "{d \<in> set ds. widget_pos w = deco_from d \<and> widget_spec w = deco_spec d}"
  have step: "set (let deco = set_find ds (widget_pos w) (widget_pos w)
                    in if length deco \<noteq> 0 \<and> deco_spec (hd deco) = widget_spec w then acc @ deco else acc)
      = set acc \<union> ?here" for acc
    using set_find_at [OF assms, of "widget_pos w"]
  proof
    assume none: "set_find ds (widget_pos w) (widget_pos w) = [] \<and> (\<forall>d\<in>set ds. deco_from d \<noteq> widget_pos w)"
    then have h: "?here = {}" by force
    show ?thesis unfolding h using none by simp
  next
    assume "\<exists>d\<in>set ds. deco_from d = widget_pos w \<and> set_find ds (widget_pos w) (widget_pos w) = [d]"
    then obtain d where d: "d \<in> set ds" "deco_from d = widget_pos w"
      "set_find ds (widget_pos w) (widget_pos w) = [d]" by blast
    have only: "\<forall>x\<in>set ds. deco_from x = widget_pos w \<longrightarrow> x = d"
      using same_key_same [OF assms _ d(1)] d(2) by metis
    show ?thesis
    proof (cases "deco_spec d = widget_spec w")
      case True
      have "?here = {d}"
      proof (rule set_eqI)
        fix x show "x \<in> ?here \<longleftrightarrow> x \<in> {d}"
          using only d(1,2) True by fastforce
      qed
      then show ?thesis unfolding \<open>?here = {d}\<close> using d(3) True by simp
    next
      case False
      have "?here = {}"
      proof (rule set_eqI)
        fix x show "x \<in> ?here \<longleftrightarrow> x \<in> {}"
          using only False by fastforce
      qed
      then show ?thesis unfolding \<open>?here = {}\<close> using d(3) False by simp
    qed
  qed
  have split: "{d \<in> set ds. wanted (w # ws) d} = ?here \<union> {d \<in> set ds. wanted ws d}"
    by (auto simp: wanted_def)
  have "set (foldl (\<lambda>a w. (let deco = set_find ds (widget_pos w) (widget_pos w)
                    in if length deco \<noteq> 0 \<and> deco_spec (hd deco) = widget_spec w then a @ deco else a))
            acc (w # ws))
      = (set acc \<union> ?here) \<union> {d \<in> set ds. wanted ws d}"
    by (simp only: foldl_Cons Cons.IH step)
  then show ?case by (simp only: split Un_assoc)
qed

lemma unchanged_set:
  assumes "distinct (map deco_from ds)"
  shows "set (decorationsThatDidNotChange ds ws) = {d \<in> set ds. wanted ws d}"
  using unchanged_fold [OF assms, of "[]" ws] by (simp add: decorationsThatDidNotChange_def)

lemma deco_eq_same:
  assumes "distinct (map deco_from ds)" "d \<in> set ds" "x \<in> set ds"
  shows "deco_eq d x \<longleftrightarrow> d = x"
proof
  assume "deco_eq d x"
  then have "deco_from d = deco_from x" by (simp add: deco_eq_def)
  with same_key_same [OF assms] show "d = x" .
next
  assume "d = x"
  then show "deco_eq d x" by (simp add: deco_eq_def)
qed

lemma set_remove_subset:
  assumes "distinct (map deco_from ds)" "set gone \<subseteq> set ds"
  shows "set_remove ds gone = filter (\<lambda>d. d \<notin> set gone) ds"
  unfolding set_remove_def
proof (rule filter_cong [OF refl])
  fix d assume "d \<in> set ds"
  then show "(\<not> list_ex (deco_eq d) gone) = (d \<notin> set gone)"
    using deco_eq_same [OF assms(1)] assms(2) by (auto simp: list_ex_iff)
qed

lemma applyState_decorationSet:
  assumes "distinct (map deco_from (set_map (mapping tr) (decorationSet old)))"
  shows "decorationSet (fst (applyState E G tr old oldState newState fresh0))
     = filter (wanted (fst (fst (getPlaceholderWidgetSpecs E G newState fresh0))))
         (set_map (mapping tr) (decorationSet old))
       @ map Decoration_widget
           (filter (\<lambda>w. \<not> held (set_map (mapping tr) (decorationSet old)) w)
              (fst (fst (getPlaceholderWidgetSpecs E G newState fresh0))))"
proof -
  define M where "M = set_map (mapping tr) (decorationSet old)"
  define W where "W = fst (fst (getPlaceholderWidgetSpecs E G newState fresh0))"
  define U where "U = decorationsThatDidNotChange M W"
  define N where "N = set_remove M U"
  have dM: "distinct (map deco_from M)" using assms by (simp add: M_def)
  have dW: "distinct (map widget_pos W)"
    using placing_invariants [of fresh0 E G newState]
    by (auto simp: W_def getPlaceholderWidgetSpecs_def Let_def placing_ok_def intro: widgets_of_distinct)
  have U: "set U = {d \<in> set M. wanted W d}" unfolding U_def by (rule unchanged_set [OF dM])
  have N: "N = filter (\<lambda>d. d \<notin> set U) M"
    unfolding N_def using U by (intro set_remove_subset [OF dM]) auto
  have kept: "(if length N \<noteq> 0 then set_remove M N else M) = filter (wanted W) M"
  proof (cases "N = []")
    case True
    then have "\<forall>d\<in>set M. wanted W d" using N U by (auto simp: filter_empty_conv)
    then have "filter (wanted W) M = M" by (simp add: filter_id_conv)
    with True show ?thesis by simp
  next
    case False
    have "set_remove M N = filter (\<lambda>d. d \<notin> set N) M"
      using N by (intro set_remove_subset [OF dM]) auto
    also have "\<dots> = filter (wanted W) M"
      by (rule filter_cong [OF refl]) (use N U in auto)
    finally show ?thesis using False by simp
  qed
  have added: "filter (\<lambda>w. widget_pos w \<notin> set (map deco_from U)) W = filter (\<lambda>w. \<not> held M w) W"
  proof (rule filter_cong [OF refl])
    fix w assume w: "w \<in> set W"
    have "widget_pos w \<in> deco_from ` set U \<longleftrightarrow> held M w"
    proof
      assume "widget_pos w \<in> deco_from ` set U"
      then obtain d where d: "d \<in> set M" "wanted W d" "deco_from d = widget_pos w"
        using U by auto
      then obtain w' where w': "w' \<in> set W" "widget_pos w' = deco_from d" "widget_spec w' = deco_spec d"
        by (auto simp: wanted_def list_ex_iff)
      have "w' = w" using dW w w'(1,2) d(3) by (auto simp: distinct_map dest: inj_onD)
      with d w' show "held M w" by (auto simp: held_def list_ex_iff)
    next
      assume "held M w"
      then obtain d where "d \<in> set M" "deco_from d = widget_pos w" "deco_spec d = widget_spec w"
        by (auto simp: held_def list_ex_iff)
      then show "widget_pos w \<in> deco_from ` set U"
        using U w by (force simp: wanted_def list_ex_iff)
    qed
    then show "(widget_pos w \<notin> set (map deco_from U)) = (\<not> held M w)" by simp
  qed
  obtain foc fresh' where g: "getPlaceholderWidgetSpecs E G newState fresh0 = ((W, foc), fresh')"
    unfolding W_def by (cases "getPlaceholderWidgetSpecs E G newState fresh0") auto
  have "decorationSet (fst (applyState E G tr old oldState newState fresh0))
      = (let newSet = (if length N \<noteq> 0 then set_remove M N else M);
             A = filter (\<lambda>w. widget_pos w \<notin> set (map deco_from U)) W
         in if length A \<noteq> 0 then set_add newSet (map Decoration_widget A) else newSet)"
    by (simp add: applyState_def g Let_def M_def [symmetric] U_def [symmetric] N_def [symmetric])
  also have "\<dots> = filter (wanted W) M @ map Decoration_widget (filter (\<lambda>w. \<not> held M w) W)"
    unfolding kept added by (simp add: Let_def set_add_def)
  finally show ?thesis by (simp add: M_def W_def)
qed


lemma set_map_elems:
  "d \<in> set (set_map m ds) \<longleftrightarrow> (\<exists>d0\<in>set ds. \<exists>p. m (deco_from d0) = Some p \<and> d = d0\<lparr>deco_from := p\<rparr>)"
proof (induction ds)
  case Nil
  then show ?case by (simp add: set_map_def List.map_filter_simps)
next
  case (Cons a ds)
  then show ?case
    by (cases "m (deco_from a)") (auto simp: set_map_def List.map_filter_simps)
qed

lemma widget_specs_invariants:
  assumes "w \<in> set (fst (fst (getPlaceholderWidgetSpecs E G state fresh0)))"
  shows "fresh0 \<le> dom_id (toDOM w)"
    and "dom_id (toDOM w) < snd (getPlaceholderWidgetSpecs E G state fresh0)"
proof -
  from assms obtain k where k: "(k, Widget w) \<in> set (widgetsMap (placing E G state fresh0))"
    by (auto simp: getPlaceholderWidgetSpecs_def Let_def in_widgets_of)
  from placing_invariants [of fresh0 E G state] k
  have "entry_ok fresh0 (fresh (placing E G state fresh0)) (k, Widget w)"
    by (auto simp: list_all_iff placing_ok_def)
  then show "fresh0 \<le> dom_id (toDOM w)"
    and "dom_id (toDOM w) < snd (getPlaceholderWidgetSpecs E G state fresh0)"
    by (auto simp: entry_ok_def getPlaceholderWidgetSpecs_def Let_def)
qed

lemma widget_specs_distinct:
  "distinct (map widget_pos (fst (fst (getPlaceholderWidgetSpecs E G state fresh0))))"
  using placing_invariants [of fresh0 E G state]
  by (auto simp: getPlaceholderWidgetSpecs_def Let_def placing_ok_def intro: widgets_of_distinct)



lemma deco_from_widget: "deco_from \<circ> Decoration_widget = widget_pos"
  by (simp add: fun_eq_iff Decoration_widget_def)

lemma in_map_filter: "q \<in> set (List.map_filter m ps) \<longleftrightarrow> (\<exists>p\<in>set ps. m p = Some q)"
  by (induction ps) (auto simp: List.map_filter_simps split: option.splits)

text \<open>
  The hypotheses of C5 hold of the states that the plugin makes: the decoration sets of
  \<^verbatim>\<open>initState\<close> and \<^verbatim>\<open>applyState\<close> have distinct positions and elements below the
  counter, and a mapping that keeps the surviving positions apart keeps them distinct.
\<close>

lemma map_filter_distinct:
  "distinct ps \<Longrightarrow> inj_on m {p \<in> set ps. m p \<noteq> None} \<Longrightarrow> distinct (List.map_filter m ps)"
proof (induction ps)
  case Nil
  then show ?case by (simp add: List.map_filter_simps)
next
  case (Cons a ps)
  have inj: "inj_on m {p \<in> set ps. m p \<noteq> None}"
    by (rule inj_on_subset [OF Cons.prems(2)]) auto
  show ?case
  proof (cases "m a")
    case None
    then show ?thesis using Cons inj by (simp add: List.map_filter_simps)
  next
    case (Some q)
    have "q \<notin> set (List.map_filter m ps)"
    proof
      assume "q \<in> set (List.map_filter m ps)"
      then obtain p where p: "p \<in> set ps" "m p = Some q" by (auto simp: in_map_filter)
      with Some Cons.prems(2) have "p = a" by (auto simp: inj_on_def)
      with p(1) Cons.prems(1) show False by simp
    qed
    then show ?thesis using Some Cons inj by (simp add: List.map_filter_simps)
  qed
qed

lemma set_map_positions: "map deco_from (set_map m ds) = List.map_filter m (map deco_from ds)"
proof (induction ds)
  case Nil
  then show ?case by (simp add: set_map_def List.map_filter_simps)
next
  case (Cons a ds)
  then show ?case by (cases "m (deco_from a)") (auto simp: set_map_def List.map_filter_simps)
qed

lemma set_map_distinct:
  assumes "distinct (map deco_from ds)"
    and "inj_on m {p \<in> deco_from ` set ds. m p \<noteq> None}"
  shows "distinct (map deco_from (set_map m ds))"
  unfolding set_map_positions using assms by (intro map_filter_distinct) auto

lemma fresh_grows: "fresh0 \<le> snd (getPlaceholderWidgetSpecs E G state fresh0)"
  using placing_invariants [of fresh0 E G state]
  by (simp add: getPlaceholderWidgetSpecs_def Let_def placing_ok_def)

lemma initState_invariant:
  "distinct (map deco_from (decorationSet (fst (initState E G state fresh0))))
   \<and> (\<forall>d\<in>set (decorationSet (fst (initState E G state fresh0))).
         dom_id (deco_toDOM d) < snd (initState E G state fresh0))"
proof -
  obtain W foc fresh' where g: "getPlaceholderWidgetSpecs E G state fresh0 = ((W, foc), fresh')"
    by (cases "getPlaceholderWidgetSpecs E G state fresh0") auto
  have "distinct (map widget_pos W)"
    using widget_specs_distinct [of E G state fresh0] g by simp
  moreover have "dom_id (toDOM w) < fresh'" if "w \<in> set W" for w
    using widget_specs_invariants(2) [of w E G state fresh0] that g by simp
  ultimately show ?thesis
    by (auto simp: initState_def g deco_from_widget) (simp add: Decoration_widget_def)
qed

lemma applyState_invariant:
  assumes dM: "distinct (map deco_from (set_map (mapping tr) (decorationSet old)))"
    and ids: "\<forall>d\<in>set (decorationSet old). dom_id (deco_toDOM d) < fresh0"
  shows "distinct (map deco_from (decorationSet (fst (applyState E G tr old oldState newState fresh0))))
   \<and> (\<forall>d\<in>set (decorationSet (fst (applyState E G tr old oldState newState fresh0))).
         dom_id (deco_toDOM d) < snd (applyState E G tr old oldState newState fresh0))"
proof -
  define M where "M = set_map (mapping tr) (decorationSet old)"
  define W where "W = fst (fst (getPlaceholderWidgetSpecs E G newState fresh0))"
  obtain foc fresh' where g: "getPlaceholderWidgetSpecs E G newState fresh0 = ((W, foc), fresh')"
    unfolding W_def by (cases "getPlaceholderWidgetSpecs E G newState fresh0") auto
  have snd: "snd (applyState E G tr old oldState newState fresh0) = fresh'"
    by (simp add: applyState_def g Let_def)
  have new: "decorationSet (fst (applyState E G tr old oldState newState fresh0))
      = filter (wanted W) M @ map Decoration_widget (filter (\<lambda>w. \<not> held M w) W)"
    unfolding M_def W_def by (rule applyState_decorationSet [OF dM])
  have dM': "distinct (map deco_from M)" using dM by (simp add: M_def)
  have dW: "distinct (map widget_pos W)" unfolding W_def by (rule widget_specs_distinct)
  have le: "fresh0 \<le> fresh'" using fresh_grows [of fresh0 E G newState] g by simp
  have d1: "distinct (map deco_from (filter (wanted W) M))"
    using dM' by (rule distinct_map_filter)
  have d2: "distinct (map deco_from (map Decoration_widget (filter (\<lambda>w. \<not> held M w) W)))"
    using dW by (simp add: distinct_map_filter deco_from_widget)
  have apart: "deco_from d \<noteq> widget_pos w"
    if "d \<in> set M" "wanted W d" "w \<in> set W" "\<not> held M w" for d w
  proof
    assume eq: "deco_from d = widget_pos w"
    from that(2) obtain w' where w': "w' \<in> set W" "widget_pos w' = deco_from d"
      "widget_spec w' = deco_spec d" by (auto simp: wanted_def list_ex_iff)
    have "w' = w" using same_key_same [OF dW w'(1) that(3)] w'(2) eq by simp
    with w' that(1) eq have "held M w" by (auto simp: held_def list_ex_iff)
    with that(4) show False by simp
  qed
  have dist: "distinct (map deco_from (decorationSet (fst (applyState E G tr old oldState newState fresh0))))"
    unfolding new using d1 d2 apart by (auto simp: Decoration_widget_def)
  have "dom_id (deco_toDOM d) < fresh'" if "d \<in> set M" for d
    using that ids le unfolding M_def by (fastforce simp: set_map_elems)
  moreover have "dom_id (toDOM w) < fresh'" if "w \<in> set W" for w
    using widget_specs_invariants(2) [of w E G newState fresh0] that g by simp
  ultimately show ?thesis using dist
    unfolding snd by (auto simp: new Decoration_widget_def)
qed





end
